theory Spec2Isabelle
  imports Main "HOL-Library.Char_ord"
begin

section \<open>JavaScript numbers and strings\<close>

text \<open>
  The ciphers of \<^verbatim>\<open>ciphers.js\<close> compute with JavaScript numbers (IEEE-754 doubles). The keys
  are integers and the operations of the source are \<^verbatim>\<open>+\<close>, \<^verbatim>\<open>-\<close>, \<^verbatim>\<open>*\<close> and \<^verbatim>\<open>%\<close>, so every
  number that occurs is an integer, an infinity or \<^verbatim>\<open>NaN\<close>: \<open>Fin n\<close> is the double that holds
  the integer \<open>n\<close>. A sum, a difference or a product is the exact result rounded to the
  nearest double: it is exact up to magnitude \<open>2^53 = 9007199254740992\<close>, rounded to 53
  significant bits (ties to the even significand) above that, and an infinity when the rounded
  value reaches \<open>2^1024\<close>. The remainder and the unary minus are exact.
\<close>

datatype number = Fin int | PInf | NInf | NaN

text \<open>Rounding to 53 significant bits: \<open>expo n\<close> is the number of low bits that a
  significand of 53 bits cannot hold, \<open>rne n\<close> the nearest multiple of \<open>2 ^ expo n\<close>, the even
  one of two that are equally near.\<close>

function expo :: "int \<Rightarrow> nat" where
  "expo n = (if n < 9007199254740992 then 0 else Suc (expo (n div 2)))"
  by pat_completeness auto
termination
  by (relation "measure nat") auto

declare expo.simps [simp del]

definition rne :: "int \<Rightarrow> int" where
  "rne n = (let e = expo n; q = n div 2 ^ e; r = n mod 2 ^ e; h = 2 ^ (e - 1)
            in (if h < r \<or> (r = h \<and> odd q) then q + 1 else q) * 2 ^ e)"

definition fround :: "int \<Rightarrow> number" where
  "fround x =
     (let y = (if \<bar>x\<bar> \<le> 9007199254740992 then x else sgn x * rne \<bar>x\<bar>)
      in if 2 ^ 1024 \<le> y then PInf else if y \<le> - (2 ^ 1024) then NInf else Fin y)"

fun js_neg :: "number \<Rightarrow> number" where
  "js_neg (Fin a) = Fin (- a)"
| "js_neg PInf = NInf"
| "js_neg NInf = PInf"
| "js_neg NaN = NaN"

fun js_add :: "number \<Rightarrow> number \<Rightarrow> number" where
  "js_add (Fin a) (Fin b) = fround (a + b)"
| "js_add NaN b = NaN"
| "js_add a NaN = NaN"
| "js_add PInf NInf = NaN"
| "js_add NInf PInf = NaN"
| "js_add PInf b = PInf"
| "js_add a PInf = PInf"
| "js_add NInf b = NInf"
| "js_add a NInf = NInf"

definition js_sub :: "number \<Rightarrow> number \<Rightarrow> number" where
  "js_sub a b = js_add a (js_neg b)"

text \<open>The sign of a number that is not \<^verbatim>\<open>NaN\<close>; an infinity times zero is \<^verbatim>\<open>NaN\<close>.\<close>

fun sign_of :: "number \<Rightarrow> int" where
  "sign_of (Fin a) = sgn a"
| "sign_of PInf = 1"
| "sign_of NInf = - 1"
| "sign_of NaN = 0"

fun js_mul :: "number \<Rightarrow> number \<Rightarrow> number" where
  "js_mul (Fin a) (Fin b) = fround (a * b)"
| "js_mul NaN b = NaN"
| "js_mul a NaN = NaN"
| "js_mul a b =
     (let s = sign_of a * sign_of b
      in if s = 0 then NaN else if 0 < s then PInf else NInf)"

text \<open>\<^verbatim>\<open>a % b\<close>: the remainder of the truncating division, with the sign of \<open>a\<close>; \<^verbatim>\<open>NaN\<close> when
  \<open>b\<close> is zero or \<open>a\<close> is not finite, and \<open>a\<close> itself when only \<open>b\<close> is infinite.\<close>

fun js_rem :: "number \<Rightarrow> number \<Rightarrow> number" where
  "js_rem (Fin a) (Fin b) = (if b = 0 then NaN else Fin (sgn a * (\<bar>a\<bar> mod \<bar>b\<bar>)))"
| "js_rem (Fin a) PInf = Fin a"
| "js_rem (Fin a) NInf = Fin a"
| "js_rem a b = NaN"

text \<open>
  A string is a \<^typ>\<open>string\<close>, one \<^typ>\<open>char\<close> per UTF-16 code unit: the texts of the model are
  the strings of code units below 256 (Latin-1). \<open>code ch\<close> is the code unit as an integer.
  \<^verbatim>\<open>String.fromCharCode\<close> is called by the ciphers on codes between 65 and 122 and on \<^verbatim>\<open>NaN\<close>
  only; on a number that is not finite it gives the code 0.
\<close>

definition code :: "char \<Rightarrow> int" where
  "code ch = of_char ch"

definition charCodeAt0 :: "char \<Rightarrow> number" where
  "charCodeAt0 ch = Fin (code ch)"

fun fromCharCode :: "number \<Rightarrow> char" where
  "fromCharCode (Fin n) = char_of n"
| "fromCharCode x = char_of (0::nat)"

definition is_lower :: "char \<Rightarrow> bool" where
  "is_lower ch \<longleftrightarrow> CHR ''a'' \<le> ch \<and> ch \<le> CHR ''z''"

definition is_upper :: "char \<Rightarrow> bool" where
  "is_upper ch \<longleftrightarrow> CHR ''A'' \<le> ch \<and> ch \<le> CHR ''Z''"

text \<open>
  \<^verbatim>\<open>toUpperCase\<close> on a code unit below 256, as the list of the code units of the result: the
  letters \<open>a\<close> to \<open>z\<close> and the accented Latin-1 letters 224 to 254 (but the division sign 247)
  move down by 32, the sharp s (223) becomes the two letters \<open>SS\<close>, the micro sign (181) and
  the y with diaeresis (255) become the code units 924 and 376, beyond 255, and everything
  else stays.
\<close>

definition upper_units :: "char \<Rightarrow> nat list" where
  "upper_units ch =
     (let c = of_char ch :: nat
      in if 97 \<le> c \<and> c \<le> 122 then [c - 32]
         else if c = 223 then [83, 83]
         else if c = 181 then [924]
         else if c = 255 then [376]
         else if 224 \<le> c \<and> c \<le> 254 \<and> c \<noteq> 247 then [c - 32]
         else [c])"

definition toUpperCase :: "string \<Rightarrow> nat list" where
  "toUpperCase s = concat (map upper_units s)"



text \<open>\<^verbatim>\<open>s.replace(/[^A-Z]/g, '')\<close> on code units: what is left are letters \<open>A\<close> to \<open>Z\<close>.\<close>

definition strip_non_AZ :: "nat list \<Rightarrow> string" where
  "strip_non_AZ us = map char_of (filter (\<lambda>u. 65 \<le> u \<and> u \<le> 90) us)"

section \<open>Arithmetic utilities\<close>

text \<open>The loop of \<^verbatim>\<open>gcd\<close> does not end when \<open>b\<close> is \<^verbatim>\<open>NaN\<close> (\<^verbatim>\<open>NaN !== 0\<close> holds and
  \<^verbatim>\<open>a % NaN\<close> is \<^verbatim>\<open>NaN\<close>): the result \<open>None\<close> is a call that never returns.\<close>

partial_function (option) gcd_js :: "number \<Rightarrow> number \<Rightarrow> number option" where
  "gcd_js a b = (if b \<noteq> Fin 0 then gcd_js b (js_rem a b) else Some a)"

declare gcd_js.simps [code]

text \<open>The modulus \<open>m\<close> is the literal 26 at every call of \<^verbatim>\<open>modInverse\<close>; it is an integer
  here, and \<open>x\<close> runs from 1 to \<open>m - 1\<close>.\<close>

definition modInverse :: "number \<Rightarrow> int \<Rightarrow> number option" where
  "modInverse a0 m =
     (let a = js_rem (js_add (js_rem a0 (Fin m)) (Fin m)) (Fin m)
      in map_option Fin (List.find (\<lambda>x. js_rem (js_mul a (Fin x)) (Fin m) = Fin 1) [1..m - 1]))"

definition mod_js :: "number \<Rightarrow> number \<Rightarrow> number" where
  "mod_js n m = js_rem (js_add (js_rem n m) m) m"

section \<open>Shift cipher\<close>

definition caesarEncrypt :: "string \<Rightarrow> number \<Rightarrow> string" where
  "caesarEncrypt text shift =
     map (\<lambda>ch.
       if is_lower ch then
         fromCharCode
           (js_add (mod_js (js_add (js_sub (charCodeAt0 ch) (Fin 97)) shift) (Fin 26)) (Fin 97))
       else if is_upper ch then
         fromCharCode
           (js_add (mod_js (js_add (js_sub (charCodeAt0 ch) (Fin 65)) shift) (Fin 26)) (Fin 65))
       else ch) text"

definition caesarDecrypt :: "string \<Rightarrow> number \<Rightarrow> string" where
  "caesarDecrypt text shift = caesarEncrypt text (js_neg shift)"

section \<open>Reference letter substitution\<close>

text \<open>The substitution that the shift and the affine cipher are compared with: a letter
  with index \<open>x\<close> in its alphabet (\<open>a\<close> or \<open>A\<close> is 0) becomes the letter with index
  \<open>f x mod 26\<close> of the same case, every other character stays.\<close>

definition letter_map :: "(int \<Rightarrow> int) \<Rightarrow> char \<Rightarrow> char" where
  "letter_map f ch =
     (if is_lower ch then char_of (f (code ch - 97) mod 26 + 97)
      else if is_upper ch then char_of (f (code ch - 65) mod 26 + 65)
      else ch)"

section \<open>Affine cipher\<close>

text \<open>An exception thrown by the source: \<open>InvalidKey\<close> is the \<^verbatim>\<open>throw new Error(...)\<close> of the
  affine and the Hill cipher on a key that fails the coprimality test, \<open>TypeError\<close> is what
  JavaScript raises when the \<^verbatim>\<open>null\<close> returned by \<^verbatim>\<open>findPosition\<close> is destructured or a
  string method is called on a value that is not a string. A function that calls \<^verbatim>\<open>gcd\<close>
  has an optional result: \<open>None\<close> is a call that never returns.\<close>

datatype error = InvalidKey | TypeError

definition affineEncrypt :: "string \<Rightarrow> number \<Rightarrow> number \<Rightarrow> (error + string) option" where
  "affineEncrypt text a b =
     (case gcd_js a (Fin 26) of
        None \<Rightarrow> None
      | Some g \<Rightarrow>
        if g \<noteq> Fin 1 then Some (Inl InvalidKey)
        else Some (Inr (map (\<lambda>ch.
          if is_lower ch then
            (let x = js_sub (charCodeAt0 ch) (Fin 97);
                 y = mod_js (js_add (js_mul a x) b) (Fin 26)
             in fromCharCode (js_add y (Fin 97)))
          else if is_upper ch then
            (let x = js_sub (charCodeAt0 ch) (Fin 65);
                 y = mod_js (js_add (js_mul a x) b) (Fin 26)
             in fromCharCode (js_add y (Fin 65)))
          else ch) text)))"

definition affineDecrypt :: "string \<Rightarrow> number \<Rightarrow> number \<Rightarrow> error + string" where
  "affineDecrypt text a b =
     (case modInverse a 26 of
        None \<Rightarrow> Inl InvalidKey
      | Some aInv \<Rightarrow> Inr (map (\<lambda>ch.
          if is_lower ch then
            (let y = js_sub (charCodeAt0 ch) (Fin 97);
                 x = mod_js (js_mul aInv (js_sub y b)) (Fin 26)
             in fromCharCode (js_add x (Fin 97)))
          else if is_upper ch then
            (let y = js_sub (charCodeAt0 ch) (Fin 65);
                 x = mod_js (js_mul aInv (js_sub y b)) (Fin 26)
             in fromCharCode (js_add x (Fin 65)))
          else ch) text))"

text \<open>\<^verbatim>\<open>affineDecrypt(affineEncrypt(T, a, b), a, b)\<close>: an exception of the inner call
  propagates.\<close>

definition affine_roundtrip :: "string \<Rightarrow> number \<Rightarrow> number \<Rightarrow> (error + string) option" where
  "affine_roundtrip T a b =
     (case affineEncrypt T a b of
        None \<Rightarrow> None
      | Some (Inl e) \<Rightarrow> Some (Inl e)
      | Some (Inr C) \<Rightarrow> Some (affineDecrypt C a b))"

text \<open>The multipliers the specification lists as valid.\<close>

definition validA :: "int list" where
  "validA = [1, 3, 5, 7, 9, 11, 15, 17, 19, 21, 23, 25]"

section \<open>Hill cipher, 3 by 3\<close>

text \<open>The key is an array of three rows of three numbers.\<close>

type_synonym row3 = "number \<times> number \<times> number"
type_synonym mat3 = "row3 \<times> row3 \<times> row3"

fun det3x3 :: "mat3 \<Rightarrow> number" where
  "det3x3 ((m00, m01, m02), (m10, m11, m12), (m20, m21, m22)) =
     js_add
       (js_sub (js_mul m00 (js_sub (js_mul m11 m22) (js_mul m12 m21)))
               (js_mul m01 (js_sub (js_mul m10 m22) (js_mul m12 m20))))
       (js_mul m02 (js_sub (js_mul m10 m21) (js_mul m11 m20)))"

fun adjugate3x3 :: "mat3 \<Rightarrow> mat3" where
  "adjugate3x3 ((m00, m01, m02), (m10, m11, m12), (m20, m21, m22)) =
     (let c00 = js_sub (js_mul m11 m22) (js_mul m12 m21);
          c01 = js_neg (js_sub (js_mul m10 m22) (js_mul m12 m20));
          c02 = js_sub (js_mul m10 m21) (js_mul m11 m20);
          c10 = js_neg (js_sub (js_mul m01 m22) (js_mul m02 m21));
          c11 = js_sub (js_mul m00 m22) (js_mul m02 m20);
          c12 = js_neg (js_sub (js_mul m00 m21) (js_mul m01 m20));
          c20 = js_sub (js_mul m01 m12) (js_mul m02 m11);
          c21 = js_neg (js_sub (js_mul m00 m12) (js_mul m02 m10));
          c22 = js_sub (js_mul m00 m11) (js_mul m01 m10)
      in ((c00, c10, c20), (c01, c11, c21), (c02, c12, c22)))"

text \<open>\<^verbatim>\<open>adj.map(row => row.map(f))\<close>\<close>

fun map_mat3 :: "(number \<Rightarrow> number) \<Rightarrow> mat3 \<Rightarrow> mat3" where
  "map_mat3 f ((m00, m01, m02), (m10, m11, m12), (m20, m21, m22)) =
     ((f m00, f m01, f m02), (f m10, f m11, f m12), (f m20, f m21, f m22))"

text \<open>When the determinant is not finite \<^verbatim>\<open>mod(d, 26)\<close> is \<^verbatim>\<open>NaN\<close> and the call of \<^verbatim>\<open>gcd\<close>
  never returns. When the determinant is coprime to 26 \<^verbatim>\<open>modInverse\<close> finds an inverse; the
  \<^verbatim>\<open>null\<close> it returns otherwise would count as 0 in the product \<^verbatim>\<open>detInv * val\<close>.\<close>

definition inverseMatrix3x3Mod26 :: "mat3 \<Rightarrow> (error + mat3) option" where
  "inverseMatrix3x3Mod26 m =
     (let d = det3x3 m;
          detMod = mod_js d (Fin 26)
      in case gcd_js detMod (Fin 26) of
           None \<Rightarrow> None
         | Some g \<Rightarrow>
           if g \<noteq> Fin 1 then Some (Inl InvalidKey)
           else
             (let detInv = (case modInverse detMod 26 of None \<Rightarrow> Fin 0 | Some x \<Rightarrow> x);
                  adj = adjugate3x3 m
              in Some (Inr (map_mat3 (\<lambda>val. mod_js (js_mul detInv val) (Fin 26)) adj))))"

text \<open>\<^verbatim>\<open>vector[j]\<close>: a vector shorter than three (the last block of a text whose length is not
  a multiple of three) has \<^verbatim>\<open>undefined\<close> entries, and a product with \<^verbatim>\<open>undefined\<close> is
  \<^verbatim>\<open>NaN\<close>.\<close>

definition vec_at :: "number list \<Rightarrow> nat \<Rightarrow> number" where
  "vec_at vector j = (if j < length vector then vector ! j else NaN)"

text \<open>One entry of the product: \<^verbatim>\<open>sum = 0\<close>, then \<^verbatim>\<open>sum += matrix[i][j] * vector[j]\<close> for
  \<open>j = 0, 1, 2\<close>.\<close>

fun row_sum :: "row3 \<Rightarrow> number list \<Rightarrow> number" where
  "row_sum (r0, r1, r2) vector =
     js_add (js_add (js_add (Fin 0) (js_mul r0 (vec_at vector 0))) (js_mul r1 (vec_at vector 1)))
            (js_mul r2 (vec_at vector 2))"

fun matrixVectorMult3 :: "mat3 \<Rightarrow> number list \<Rightarrow> number list" where
  "matrixVectorMult3 (row0, row1, row2) vector =
     [mod_js (row_sum row0 vector) (Fin 26),
      mod_js (row_sum row1 vector) (Fin 26),
      mod_js (row_sum row2 vector) (Fin 26)]"

text \<open>\<^verbatim>\<open>ch.toUpperCase().charCodeAt(0) - 65\<close> is a finite number; both comparisons of
  \<^verbatim>\<open>(code >= 0 && code < 26)\<close> are evaluated on it.\<close>

definition textToVector :: "string \<Rightarrow> number list" where
  "textToVector text =
     map (\<lambda>ch. let code = js_sub (Fin (int (hd (upper_units ch)))) (Fin 65)
               in case code of
                    Fin c \<Rightarrow> if 0 \<le> c \<and> c < 26 then code else Fin 0
                  | _ \<Rightarrow> Fin 0) text"

definition vectorToText :: "number list \<Rightarrow> string" where
  "vectorToText vector = map (\<lambda>n. fromCharCode (js_add (mod_js n (Fin 26)) (Fin 65))) vector"

text \<open>\<^verbatim>\<open>while (text.length % 3 !== 0) text += 'X'\<close>\<close>

function pad_X :: "string \<Rightarrow> string" where
  "pad_X text = (if length text mod 3 \<noteq> 0 then pad_X (text @ ''X'') else text)"
  by pat_completeness auto
termination
proof (relation "measure (\<lambda>text. (3 - length text mod 3) mod 3)")
  show "wf (measure (\<lambda>text :: string. (3 - length text mod 3) mod 3))" by simp
next
  fix t :: string
  assume a: "length t mod 3 \<noteq> 0"
  let ?n = "length t"
  have "(3 - Suc ?n mod 3) mod 3 < (3 - ?n mod 3) mod 3"
  proof -
    have "?n mod 3 < 3" by simp
    with a have "?n mod 3 = 1 \<or> ?n mod 3 = 2" by linarith
    then show ?thesis by (auto simp: mod_Suc)
  qed
  then show "(t @ ''X'', t) \<in> measure (\<lambda>text. (3 - length text mod 3) mod 3)"
    by simp
qed

declare pad_X.simps [simp del]

text \<open>The loop \<^verbatim>\<open>for (let i = 0; i < text.length; i += 3)\<close> of \<^verbatim>\<open>hillEncrypt\<close> and of
  \<^verbatim>\<open>hillDecrypt\<close>, on the text from index \<open>i\<close> on: \<^verbatim>\<open>text.substr(i, 3)\<close> is the block.\<close>

function hill_loop :: "mat3 \<Rightarrow> string \<Rightarrow> string" where
  "hill_loop m text =
     (if text = [] then []
      else vectorToText (matrixVectorMult3 m (textToVector (take 3 text)))
           @ hill_loop m (drop 3 text))"
  by pat_completeness auto
termination
  by (relation "measure (\<lambda>(m, text). length text)") auto

declare hill_loop.simps [simp del]

definition hillEncrypt :: "string \<Rightarrow> mat3 \<Rightarrow> string" where
  "hillEncrypt text0 keyMatrix =
     (let text = pad_X (strip_non_AZ (toUpperCase text0))
      in hill_loop keyMatrix text)"

definition hillDecrypt :: "string \<Rightarrow> mat3 \<Rightarrow> (error + string) option" where
  "hillDecrypt text0 keyMatrix =
     (let text = strip_non_AZ (toUpperCase text0)
      in case inverseMatrix3x3Mod26 keyMatrix of
           None \<Rightarrow> None
         | Some (Inl e) \<Rightarrow> Some (Inl e)
         | Some (Inr invMatrix) \<Rightarrow> Some (Inr (hill_loop invMatrix text)))"

text \<open>\<^verbatim>\<open>hillDecrypt(hillEncrypt(T, M), M)\<close>\<close>

definition hill_roundtrip :: "string \<Rightarrow> mat3 \<Rightarrow> (error + string) option" where
  "hill_roundtrip T M = hillDecrypt (hillEncrypt T M) M"

text \<open>A key of integers, the number matrix that holds it, its determinant and its adjugate
  over the integers, and the bound on the entries of a key under which the source computes
  them exactly.\<close>

type_synonym irow3 = "int \<times> int \<times> int"
type_synonym imat3 = "irow3 \<times> irow3 \<times> irow3"

fun mat_of :: "imat3 \<Rightarrow> mat3" where
  "mat_of ((m00, m01, m02), (m10, m11, m12), (m20, m21, m22)) =
     ((Fin m00, Fin m01, Fin m02), (Fin m10, Fin m11, Fin m12), (Fin m20, Fin m21, Fin m22))"

fun det_int :: "imat3 \<Rightarrow> int" where
  "det_int ((m00, m01, m02), (m10, m11, m12), (m20, m21, m22)) =
     m00 * (m11 * m22 - m12 * m21) - m01 * (m10 * m22 - m12 * m20) + m02 * (m10 * m21 - m11 * m20)"

fun adj_int :: "imat3 \<Rightarrow> imat3" where
  "adj_int ((m00, m01, m02), (m10, m11, m12), (m20, m21, m22)) =
     ((m11 * m22 - m12 * m21, - (m01 * m22 - m02 * m21), m01 * m12 - m02 * m11),
      (- (m10 * m22 - m12 * m20), m00 * m22 - m02 * m20, - (m00 * m12 - m02 * m10)),
      (m10 * m21 - m11 * m20, - (m00 * m21 - m01 * m20), m00 * m11 - m01 * m10))"

fun map_imat3 :: "(int \<Rightarrow> int) \<Rightarrow> imat3 \<Rightarrow> imat3" where
  "map_imat3 f ((m00, m01, m02), (m10, m11, m12), (m20, m21, m22)) =
     ((f m00, f m01, f m02), (f m10, f m11, f m12), (f m20, f m21, f m22))"

fun entries :: "imat3 \<Rightarrow> int list" where
  "entries ((m00, m01, m02), (m10, m11, m12), (m20, m21, m22)) =
     [m00, m01, m02, m10, m11, m12, m20, m21, m22]"

definition small_key :: "imat3 \<Rightarrow> bool" where
  "small_key m \<longleftrightarrow> list_all (\<lambda>x. \<bar>x\<bar> \<le> 100000) (entries m)"

definition all_upper :: "string \<Rightarrow> bool" where
  "all_upper = list_all is_upper"

text \<open>One entry of the product of a matrix and a vector modulo 26, the index of a capital
  letter in the alphabet and the capital letter with a given index, and the cipher on a text
  of whole blocks of capital letters.\<close>

definition dot26 :: "irow3 \<Rightarrow> int \<Rightarrow> int \<Rightarrow> int \<Rightarrow> int" where
  "dot26 r v0 v1 v2 = (case r of (r0, r1, r2) \<Rightarrow> (r0 * v0 + r1 * v1 + r2 * v2) mod 26)"

definition index_of :: "char \<Rightarrow> int" where
  "index_of ch = code ch - 65"

definition letter_of :: "int \<Rightarrow> char" where
  "letter_of n = char_of (n + 65)"

fun hill_ref :: "imat3 \<Rightarrow> string \<Rightarrow> string" where
  "hill_ref (row0, row1, row2) (c0 # c1 # c2 # rest) =
     (let v0 = index_of c0; v1 = index_of c1; v2 = index_of c2
      in letter_of (dot26 row0 v0 v1 v2) # letter_of (dot26 row1 v0 v1 v2)
         # letter_of (dot26 row2 v0 v1 v2) # hill_ref (row0, row1, row2) rest)"
| "hill_ref m rest = []"
section \<open>Playfair cipher\<close>

definition alphabet25 :: string where
  "alphabet25 = ''ABCDEFGHIKLMNOPQRSTUVWXYZ''"

text \<open>\<^verbatim>\<open>s.replace(/J/g, 'I')\<close> on code units: \<open>J\<close> is 74 and \<open>I\<close> is 73.\<close>

definition replace_J_I :: "nat list \<Rightarrow> nat list" where
  "replace_J_I = map (\<lambda>u. if u = 74 then 73 else u)"

text \<open>One step of the two loops that fill \<^verbatim>\<open>matrix\<close>. The set \<^verbatim>\<open>seen\<close> of the source holds
  exactly the letters pushed so far, so \<^verbatim>\<open>seen.has(ch)\<close> is membership in \<^verbatim>\<open>matrix\<close>.\<close>

definition push_unseen :: "char list \<Rightarrow> char \<Rightarrow> char list" where
  "push_unseen matrix ch = (if ch \<in> set matrix then matrix else matrix @ [ch])"

definition buildPlayfairMatrix :: "string \<Rightarrow> char list list" where
  "buildPlayfairMatrix key =
     (let keyUpper = strip_non_AZ (replace_J_I (toUpperCase key));
          matrix = foldl push_unseen [] keyUpper;
          matrix = foldl push_unseen matrix alphabet25
      in map (\<lambda>i. take 5 (drop (i * 5) matrix)) [0..<5])"

text \<open>The character looked for is \<open>None\<close> when the source reads past the end of the text
  (\<^verbatim>\<open>undefined\<close>), which no cell of the grid equals; the result \<open>None\<close> is \<^verbatim>\<open>null\<close>. The grid
  always has five rows of five letters (\<open>flat_matrix_length\<close> below), so every cell read
  exists.\<close>

definition findPosition :: "char list list \<Rightarrow> char option \<Rightarrow> (nat \<times> nat) option" where
  "findPosition matrix ch =
     List.find (\<lambda>(row, col). Some (matrix ! row ! col) = ch) (List.product [0..<5] [0..<5])"

text \<open>The loop of \<^verbatim>\<open>preparePlayfairText\<close> on the text from index \<open>i\<close> on; a digram is a
  pair of characters. On the last single letter \<open>b\<close> is the filler \<open>X\<close> and both branches
  push the letter and \<open>X\<close>.\<close>

fun digrams_from :: "string \<Rightarrow> (char \<times> char) list" where
  "digrams_from [] = []"
| "digrams_from [a] = [(a, CHR ''X'')]"
| "digrams_from (a # b # rest) =
     (if a = b then (a, CHR ''X'') # digrams_from (b # rest)
      else (a, b) # digrams_from rest)"

definition preparePlayfairText :: "string \<Rightarrow> (char \<times> char) list" where
  "preparePlayfairText text = digrams_from (strip_non_AZ (replace_J_I (toUpperCase text)))"

text \<open>The loop over the digrams; destructuring a \<^verbatim>\<open>null\<close> position raises a \<open>TypeError\<close>,
  which leaves the function without a result.\<close>

fun encrypt_digrams :: "char list list \<Rightarrow> (char \<times> char) list \<Rightarrow> error + string" where
  "encrypt_digrams matrix [] = Inr []"
| "encrypt_digrams matrix ((d0, d1) # rest) =
     (case findPosition matrix (Some d0) of
        None \<Rightarrow> Inl TypeError
      | Some (row1, col1) \<Rightarrow>
        (case findPosition matrix (Some d1) of
           None \<Rightarrow> Inl TypeError
         | Some (row2, col2) \<Rightarrow>
           (let out =
              (if row1 = row2 then
                 [matrix ! row1 ! ((col1 + 1) mod 5), matrix ! row2 ! ((col2 + 1) mod 5)]
               else if col1 = col2 then
                 [matrix ! ((row1 + 1) mod 5) ! col1, matrix ! ((row2 + 1) mod 5) ! col2]
               else
                 [matrix ! row1 ! col2, matrix ! row2 ! col1])
            in case encrypt_digrams matrix rest of
                 Inl e \<Rightarrow> Inl e
               | Inr result \<Rightarrow> Inr (out @ result))))"

definition playfairEncrypt :: "string \<Rightarrow> string \<Rightarrow> error + string" where
  "playfairEncrypt text key =
     (let matrix = buildPlayfairMatrix key;
          digrams = preparePlayfairText text
      in encrypt_digrams matrix digrams)"

text \<open>\<^verbatim>\<open>mod(col1 - 1, 5)\<close> as an index: a row or a column returned by \<^verbatim>\<open>findPosition\<close> is
  between 0 and 4, and so is the number computed from it.\<close>

fun to_index :: "number \<Rightarrow> nat" where
  "to_index (Fin k) = nat k"
| "to_index x = 0"

definition prev5 :: "nat \<Rightarrow> nat" where
  "prev5 n = to_index (mod_js (js_sub (Fin (int n)) (Fin 1)) (Fin 5))"

text \<open>The loop \<^verbatim>\<open>for (let i = 0; i < text.length; i += 2)\<close> of \<^verbatim>\<open>playfairDecrypt\<close> on the text
  from index \<open>i\<close> on; \<^verbatim>\<open>text[i + 1]\<close> is \<^verbatim>\<open>undefined\<close> on a last single letter.\<close>

fun decrypt_from :: "char list list \<Rightarrow> string \<Rightarrow> error + string" where
  "decrypt_from matrix [] = Inr []"
| "decrypt_from matrix (t0 # rest) =
     (case findPosition matrix (Some t0) of
        None \<Rightarrow> Inl TypeError
      | Some (row1, col1) \<Rightarrow>
        (case findPosition matrix (case rest of [] \<Rightarrow> None | t1 # _ \<Rightarrow> Some t1) of
           None \<Rightarrow> Inl TypeError
         | Some (row2, col2) \<Rightarrow>
           (let out =
              (if row1 = row2 then
                 [matrix ! row1 ! prev5 col1, matrix ! row2 ! prev5 col2]
               else if col1 = col2 then
                 [matrix ! prev5 row1 ! col1, matrix ! prev5 row2 ! col2]
               else
                 [matrix ! row1 ! col2, matrix ! row2 ! col1])
            in case decrypt_from matrix (drop 1 rest) of
                 Inl e \<Rightarrow> Inl e
               | Inr result \<Rightarrow> Inr (out @ result))))"

definition playfairDecrypt :: "string \<Rightarrow> string \<Rightarrow> error + string" where
  "playfairDecrypt text0 key =
     (let matrix = buildPlayfairMatrix key;
          text = strip_non_AZ (toUpperCase text0)
      in decrypt_from matrix text)"

text \<open>\<^verbatim>\<open>playfairDecrypt(playfairEncrypt(T, K), K)\<close>: an exception of the inner call
  propagates.\<close>

definition playfair_roundtrip :: "string \<Rightarrow> string \<Rightarrow> error + string" where
  "playfair_roundtrip T K =
     (case playfairEncrypt T K of Inl e \<Rightarrow> Inl e | Inr C \<Rightarrow> playfairDecrypt C K)"

text \<open>The canonical form of a plaintext: upper case, \<open>J\<close> merged into \<open>I\<close>, letters only.\<close>

definition playfair_canonical :: "string \<Rightarrow> string" where
  "playfair_canonical T = strip_non_AZ (replace_J_I (toUpperCase T))"

text \<open>The letters of the grid in the order they are pushed, the cell of the grid at a row and
  a column, and the letters of a list of digrams in sequence.\<close>

definition flat_matrix :: "string \<Rightarrow> char list" where
  "flat_matrix key = foldl push_unseen (foldl push_unseen [] (playfair_canonical key)) alphabet25"

definition cell :: "string \<Rightarrow> nat \<Rightarrow> nat \<Rightarrow> char" where
  "cell key row col = buildPlayfairMatrix key ! row ! col"

definition letters_of :: "(char \<times> char) list \<Rightarrow> string" where
  "letters_of ds = concat (map (\<lambda>(a, b). [a, b]) ds)"

section \<open>Attacks\<close>

text \<open>A candidate \<^verbatim>\<open>{shift, text}\<close> is the pair of its fields, a candidate \<^verbatim>\<open>{a, b, text}\<close>
  the triple. The keys are the loop counters and the entries of the array \<^verbatim>\<open>validA\<close>,
  integers that the ciphers receive as numbers.\<close>

definition bruteForceCaesar :: "string \<Rightarrow> (int \<times> string) list" where
  "bruteForceCaesar ciphertext =
     map (\<lambda>shift. (shift, caesarDecrypt ciphertext (Fin shift))) [0..25]"

text \<open>The body of the inner loop: the candidate is pushed unless \<^verbatim>\<open>affineDecrypt\<close> throws,
  and the \<^verbatim>\<open>catch\<close> pushes nothing.\<close>

definition bruteForceAffine :: "string \<Rightarrow> (int \<times> int \<times> string) list" where
  "bruteForceAffine ciphertext =
     concat (map (\<lambda>a.
       concat (map (\<lambda>b.
         case affineDecrypt ciphertext (Fin a) (Fin b) of
           Inr decrypted \<Rightarrow> [(a, b, decrypted)]
         | Inl e \<Rightarrow> []) [0..25])) validA)"













text \<open>The order on the keys \<open>(a, b)\<close> of the affine search: by \<open>a\<close>, then by \<open>b\<close>.\<close>

definition key_less :: "int \<times> int \<Rightarrow> int \<times> int \<Rightarrow> bool" where
  "key_less k k' \<longleftrightarrow> fst k < fst k' \<or> (fst k = fst k' \<and> snd k < snd k')"

section \<open>Non-alphabetic symbols of a text\<close>

text \<open>The output \<open>C\<close> keeps the non-alphabetic symbols of the input \<open>T\<close>: it has the length of
  \<open>T\<close>, and at every position where \<open>T\<close> has a symbol that is not a letter \<open>a\<close> to \<open>z\<close> or \<open>A\<close>
  to \<open>Z\<close>, \<open>C\<close> has the same symbol.\<close>

definition passes_through :: "string \<Rightarrow> string \<Rightarrow> bool" where
  "passes_through T C \<longleftrightarrow>
     length C = length T
     \<and> (\<forall>i \<in> set [0..<length T]. \<not> (is_lower (T ! i) \<or> is_upper (T ! i)) \<longrightarrow> C ! i = T ! i)"
section \<open>Properties of the arithmetic utilities\<close>

lemma fround_exact: "\<bar>x\<bar> \<le> 9007199254740992 \<Longrightarrow> fround x = Fin x"
proof -
  assume a: "\<bar>x\<bar> \<le> 9007199254740992"
  have "(9007199254740992::int) < 2 ^ 1024" by simp
  with a have "x < 2 ^ 1024" "- (2 ^ 1024) < x" by linarith+
  with a show ?thesis by (simp add: fround_def Let_def)
qed

lemma js_add_fin: "\<bar>a + b\<bar> \<le> 9007199254740992 \<Longrightarrow> js_add (Fin a) (Fin b) = Fin (a + b)"
  by (simp add: fround_exact)

lemma js_sub_fin: "\<bar>a - b\<bar> \<le> 9007199254740992 \<Longrightarrow> js_sub (Fin a) (Fin b) = Fin (a - b)"
  by (simp add: js_sub_def fround_exact)

lemma js_mul_fin: "\<bar>a * b\<bar> \<le> 9007199254740992 \<Longrightarrow> js_mul (Fin a) (Fin b) = Fin (a * b)"
  by (simp add: fround_exact)

lemma js_rem_26:
  "js_rem (Fin n) (Fin 26) = Fin (if 0 \<le> n then n mod 26 else - ((- n) mod 26))"
  by (auto simp: sgn_if)

lemma mod_js_26: "mod_js (Fin n) (Fin 26) = Fin (n mod 26)"
proof -
  let ?r = "if 0 \<le> n then n mod 26 else - ((- n) mod 26)"
  have b: "- 26 < ?r" "?r < 26" by auto
  have c: "?r mod 26 = n mod 26" by (simp add: mod_minus_eq)
  have "js_add (Fin ?r) (Fin 26) = Fin (?r + 26)" using b by (intro js_add_fin) linarith
  moreover have "js_rem (Fin (?r + 26)) (Fin 26) = Fin ((?r + 26) mod 26)"
    using b by (simp add: sgn_if)
  ultimately show ?thesis using c by (simp only: mod_js_def js_rem_26) simp
qed

lemma js_rem_nonneg: "0 \<le> a \<Longrightarrow> 0 < b \<Longrightarrow> js_rem (Fin a) (Fin b) = Fin (a mod b)"
  by (simp add: sgn_if)

lemma gcd_js_nonneg: "0 \<le> a \<Longrightarrow> 0 \<le> b \<Longrightarrow> gcd_js (Fin a) (Fin b) = Some (Fin (gcd a b))"
proof (induction "nat b" arbitrary: a b rule: less_induct)
  case less
  show ?case
  proof (cases "b = 0")
    case True
    then show ?thesis using less(2) by (simp add: gcd_js.simps[of "Fin a" "Fin 0"])
  next
    case False
    then have b: "0 < b" using less(3) by simp
    have r: "js_rem (Fin a) (Fin b) = Fin (a mod b)" using less(2) b by (rule js_rem_nonneg)
    have m: "0 \<le> a mod b" "a mod b < b" using b by simp_all
    have "gcd_js (Fin a) (Fin b) = gcd_js (Fin b) (Fin (a mod b))"
      unfolding gcd_js.simps[of "Fin a" "Fin b"] r using False by simp
    also have "\<dots> = Some (Fin (gcd b (a mod b)))"
      using m less(3) by (intro less(1)) simp_all
    also have "gcd b (a mod b) = gcd a b" by (metis gcd.commute gcd_red_int)
    finally show ?thesis .
  qed
qed

text \<open>A call of \<^verbatim>\<open>gcd\<close> whose second argument is \<^verbatim>\<open>NaN\<close>, or whose first argument is
  \<^verbatim>\<open>NaN\<close> and whose second is not zero, never returns.\<close>

lemma gcd_js_NaN_aux: "gcd_js a b = Some y \<Longrightarrow> b \<noteq> NaN \<and> (a = NaN \<longrightarrow> b = Fin 0)"
proof (rule gcd_js.raw_induct[where P = "\<lambda>a b y. b \<noteq> NaN \<and> (a = NaN \<longrightarrow> b = Fin 0)"])
  fix g :: "number \<Rightarrow> number \<Rightarrow> number option" and u v z
  assume IH: "\<And>a b y. g a b = Some y \<Longrightarrow> b \<noteq> NaN \<and> (a = NaN \<longrightarrow> b = Fin 0)"
    and step: "(if v \<noteq> Fin 0 then g v (js_rem u v) else Some u) = Some z"
  show "v \<noteq> NaN \<and> (u = NaN \<longrightarrow> v = Fin 0)"
  proof (cases "v = Fin 0")
    case True
    then show ?thesis by simp
  next
    case False
    with step have "g v (js_rem u v) = Some z" by simp
    from IH[OF this] have r: "js_rem u v \<noteq> NaN" by simp
    then have "v \<noteq> NaN" by (cases u; cases v) auto
    moreover from r have "u \<noteq> NaN" by (cases u; cases v) auto
    ultimately show ?thesis by simp
  qed
qed

lemma gcd_js_NaN: "gcd_js NaN (Fin 26) = None"
proof (cases "gcd_js NaN (Fin 26)")
  case (Some y)
  from gcd_js_NaN_aux[OF this] show ?thesis by simp
qed simp

section \<open>Characters and the reference substitution\<close>

lemma code_int: "code ch = int (of_char ch)"
  by (simp add: code_def of_nat_of_char)

lemma code_range: "0 \<le> code ch" "code ch < 256"
  by (simp_all add: code_int)

lemma is_lower_code: "is_lower ch \<longleftrightarrow> 97 \<le> code ch \<and> code ch \<le> 122"
  by (simp add: is_lower_def less_eq_char_def code_int)

lemma is_upper_code: "is_upper ch \<longleftrightarrow> 65 \<le> code ch \<and> code ch \<le> 90"
  by (simp add: is_upper_def less_eq_char_def code_int)

lemma upper_not_lower: "is_upper ch \<Longrightarrow> \<not> is_lower ch"
  by (simp add: is_lower_code is_upper_code)

lemma code_char_of: "0 \<le> n \<Longrightarrow> n < 256 \<Longrightarrow> code (char_of n) = n"
  by (simp add: code_def of_char_of)

lemma char_eq_code: "code a = code b \<Longrightarrow> a = b"
  by (simp add: code_def)

lemma letter_map_lower:
  assumes "is_lower ch"
  shows "is_lower (letter_map f ch)"
    and "code (letter_map f ch) = f (code ch - 97) mod 26 + 97"
proof -
  let ?y = "f (code ch - 97) mod 26"
  have y: "0 \<le> ?y" "?y < 26" by simp_all
  have e: "letter_map f ch = char_of (?y + 97)" using assms by (simp add: letter_map_def)
  have c: "code (char_of (?y + 97)) = ?y + 97"
    using y by (intro code_char_of) linarith+
  show "code (letter_map f ch) = ?y + 97" by (simp only: e c)
  then show "is_lower (letter_map f ch)" using y by (simp add: is_lower_code)
qed

lemma letter_map_upper:
  assumes "is_upper ch"
  shows "is_upper (letter_map f ch)"
    and "code (letter_map f ch) = f (code ch - 65) mod 26 + 65"
proof -
  let ?y = "f (code ch - 65) mod 26"
  have y: "0 \<le> ?y" "?y < 26" by simp_all
  have e: "letter_map f ch = char_of (?y + 65)"
    using assms upper_not_lower[OF assms] by (simp add: letter_map_def)
  have c: "code (char_of (?y + 65)) = ?y + 65"
    using y by (intro code_char_of) linarith+
  show "code (letter_map f ch) = ?y + 65" by (simp only: e c)
  then show "is_upper (letter_map f ch)" using y by (simp add: is_upper_code)
qed

lemma letter_map_other: "\<not> is_lower ch \<Longrightarrow> \<not> is_upper ch \<Longrightarrow> letter_map f ch = ch"
  by (simp add: letter_map_def)

lemma letter_map_cong:
  assumes "\<And>x. 0 \<le> x \<Longrightarrow> x < 26 \<Longrightarrow> f x mod 26 = g x mod 26"
  shows "letter_map f ch = letter_map g ch"
proof -
  have "is_lower ch \<Longrightarrow> f (code ch - 97) mod 26 = g (code ch - 97) mod 26"
    by (rule assms) (simp_all add: is_lower_code)
  moreover
  have "is_upper ch \<Longrightarrow> f (code ch - 65) mod 26 = g (code ch - 65) mod 26"
    by (rule assms) (simp_all add: is_upper_code)
  ultimately show ?thesis by (simp add: letter_map_def)
qed

lemma letter_map_inv:
  assumes inv: "\<And>x. 0 \<le> x \<Longrightarrow> x < 26 \<Longrightarrow> g (f x mod 26) mod 26 = x"
  shows "letter_map g (letter_map f ch) = ch"
proof (cases "is_lower ch")
  case True
  note l = letter_map_lower[OF True, of f]
  have "code (letter_map g (letter_map f ch))
      = g (f (code ch - 97) mod 26 + 97 - 97) mod 26 + 97"
    using letter_map_lower(2)[OF l(1), of g] by (simp only: l(2))
  also have "\<dots> = (code ch - 97) + 97"
    using True by (simp add: inv is_lower_code)
  finally show ?thesis by (intro char_eq_code) simp
next
  case False
  show ?thesis
  proof (cases "is_upper ch")
    case True
    note l = letter_map_upper[OF True, of f]
    have "code (letter_map g (letter_map f ch))
        = g (f (code ch - 65) mod 26 + 65 - 65) mod 26 + 65"
      using letter_map_upper(2)[OF l(1), of g] by (simp only: l(2))
    also have "\<dots> = (code ch - 65) + 65"
      using True by (simp add: inv is_upper_code)
    finally show ?thesis by (intro char_eq_code) simp
  next
    case u: False
    show ?thesis using False u by (simp add: letter_map_def)
  qed
qed

section \<open>Shift cipher: shifts outside 0..25\<close>

lemma shift_letter:
  assumes s: "\<bar>s\<bar> \<le> 9007199254740967" and c: "b \<le> c" "c < b + 26" and b: "0 \<le> b" "b \<le> 100"
  shows "js_add (mod_js (js_add (js_sub (Fin c) (Fin b)) (Fin s)) (Fin 26)) (Fin b)
       = Fin ((c - b + s) mod 26 + b)"
proof -
  have 1: "js_sub (Fin c) (Fin b) = Fin (c - b)" using c b by (intro js_sub_fin) linarith
  have 2: "js_add (Fin (c - b)) (Fin s) = Fin (c - b + s)" using s c by (intro js_add_fin) linarith
  have 3: "0 \<le> (c - b + s) mod 26" "(c - b + s) mod 26 < 26" by simp_all
  have 4: "js_add (Fin ((c - b + s) mod 26)) (Fin b) = Fin ((c - b + s) mod 26 + b)"
    using 3 b by (intro js_add_fin) linarith
  show ?thesis by (simp only: 1 2 mod_js_26 4)
qed

lemma caesarEncrypt_letter_map:
  assumes "\<bar>s\<bar> \<le> 9007199254740967"
  shows "caesarEncrypt T (Fin s) = map (letter_map (\<lambda>x. x + s)) T"
  unfolding caesarEncrypt_def
  by (rule map_cong[OF refl])
     (simp add: letter_map_def is_lower_code is_upper_code charCodeAt0_def
        shift_letter[OF assms])

text \<open>
  Claim C10, as amended. \<^verbatim>\<open>caesarEncrypt\<close> and \<^verbatim>\<open>caesarDecrypt\<close> accept negative shifts and
  shifts of 26 or more: for every integer shift \<open>s\<close> with \<open>\<bar>s\<bar> \<le> 2^53 - 25\<close> and every text
  \<open>T\<close>, encrypting with \<open>s\<close> is encrypting with \<open>s mod 26\<close>, decrypting with \<open>s\<close> is
  encrypting with \<open>- s\<close>, and decrypting the encryption gives \<open>T\<close> back. The bound is where
  \<^verbatim>\<open>ch.charCodeAt(0) - 97 + shift\<close> is still computed exactly.
\<close>

theorem caesar_total_safe_shift:
  assumes "\<bar>s\<bar> \<le> 9007199254740967"
  shows "caesarEncrypt T (Fin s) = caesarEncrypt T (Fin (s mod 26))
       \<and> caesarDecrypt T (Fin s) = caesarEncrypt T (Fin (- s))
       \<and> caesarDecrypt (caesarEncrypt T (Fin s)) (Fin s) = T"
proof -
  have m: "\<bar>s mod 26\<bar> \<le> 9007199254740967" by simp
  have n: "\<bar>- s\<bar> \<le> 9007199254740967" using assms by simp
  have 1: "letter_map (\<lambda>x. x + s mod 26) ch = letter_map (\<lambda>x. x + s) ch" for ch
    by (rule letter_map_cong) (simp add: mod_add_right_eq)
  have 2: "letter_map (\<lambda>x. x + - s) (letter_map (\<lambda>x. x + s) ch) = ch" for ch
    by (rule letter_map_inv) (simp add: mod_diff_left_eq)
  show ?thesis
    using 2 by (simp add: caesarDecrypt_def caesarEncrypt_letter_map[OF assms]
        caesarEncrypt_letter_map[OF m] caesarEncrypt_letter_map[OF n] 1 map_idI)
qed

theorem caesar_total_safe_shift_witness:
  "\<bar>- 27 :: int\<bar> \<le> 9007199254740967
   \<and> (caesarEncrypt ''Ab-z'' (Fin (- 27)) = caesarEncrypt ''Ab-z'' (Fin (- 27 mod 26))
       \<and> caesarDecrypt ''Ab-z'' (Fin (- 27)) = caesarEncrypt ''Ab-z'' (Fin (- (- 27)))
       \<and> caesarDecrypt (caesarEncrypt ''Ab-z'' (Fin (- 27))) (Fin (- 27)) = ''Ab-z'')"
proof -
  have h: "\<bar>- 27 :: int\<bar> \<le> 9007199254740967" by simp
  from h caesar_total_safe_shift [OF h] show ?thesis by (rule conjI)
qed

text \<open>
  Claim C10 as stated, for every integer shift, fails at the shift \<open>2^53\<close>, which a
  JavaScript number holds exactly: \<^verbatim>\<open>1 + 9007199254740992\<close> evaluates to
  \<^verbatim>\<open>9007199254740992\<close>, so \<^verbatim>\<open>"b"\<close> is encrypted like \<^verbatim>\<open>"a"\<close>, to \<^verbatim>\<open>"g"\<close>; the shift
  \<open>2^53 mod 26 = 6\<close> gives \<^verbatim>\<open>"h"\<close>, and decrypting \<^verbatim>\<open>"g"\<close> gives \<^verbatim>\<open>"a"\<close>.
\<close>

theorem caesar_big_shift_counterexample:
  "caesarEncrypt ''b'' (Fin 9007199254740992) \<noteq> caesarEncrypt ''b'' (Fin (9007199254740992 mod 26))
   \<and> caesarEncrypt ''b'' (Fin 9007199254740992) = ''g''
   \<and> caesarDecrypt (caesarEncrypt ''b'' (Fin 9007199254740992)) (Fin 9007199254740992) = ''a''"
  by code_simp

section \<open>Affine cipher: key validation and round trip\<close>

lemma validA_iff:
  assumes "0 \<le> (r::int)" "r < 26"
  shows "r \<in> set validA \<longleftrightarrow> gcd r 26 = 1"
proof -
  have "r \<in> {0..25}" using assms by auto
  also have "{0..25::int} = set [0..25]" by simp
  finally have "r \<in> set [0..25]" .
  then have "r \<in> {0,1,2,3,4,5,6,7,8,9,10,11,12,13,14,15,16,17,18,19,20,21,22,23,24,25}"
    by (simp add: upto.simps)
  then show ?thesis
    by (elim insertE emptyE; hypsubst; code_simp)
qed

lemma inverse_exists:
  assumes "gcd (r::int) 26 = 1"
  shows "\<exists>x\<in>set [1..25]. (r * x) mod 26 = 1"
proof -
  obtain u v where uv: "u * r + v * 26 = 1"
    using bezout_int[of r 26] assms by auto
  let ?x = "u mod 26"
  have "(r * ?x) mod 26 = (u * r + v * 26) mod 26"
    by (simp add: mod_mult_right_eq mult.commute)
  then have 1: "(r * ?x) mod 26 = 1" by (simp add: uv)
  then have "?x \<noteq> 0" by (intro notI) simp
  moreover have "0 \<le> ?x" "?x < 26" by simp_all
  ultimately have "?x \<in> set [1..25]" unfolding set_upto atLeastAtMost_iff by linarith
  with 1 show ?thesis by blast
qed

lemma modInverse_26:
  "modInverse (Fin a) 26 = map_option Fin (List.find (\<lambda>x. (a * x) mod 26 = 1) [1..25])"
proof -
  have "js_rem (js_mul (Fin (a mod 26)) (Fin x)) (Fin 26) = Fin ((a * x) mod 26)"
    if "x \<in> set [1..25]" for x
  proof -
    have x: "1 \<le> x" "x \<le> 25" using that by simp_all
    have a: "0 \<le> a mod 26" "a mod 26 \<le> 25" by simp_all
    have "a mod 26 * x \<le> 25 * 25" using a x by (intro mult_mono) simp_all
    moreover have p: "0 \<le> a mod 26 * x" using a x by simp
    ultimately have "js_mul (Fin (a mod 26)) (Fin x) = Fin (a mod 26 * x)"
      by (intro js_mul_fin) simp
    moreover have "js_rem (Fin (a mod 26 * x)) (Fin 26) = Fin ((a mod 26 * x) mod 26)"
      using p by (intro js_rem_nonneg) simp_all
    ultimately show ?thesis by (simp only: mod_mult_left_eq)
  qed
  then have f: "List.find (\<lambda>x. js_rem (js_mul (Fin (a mod 26)) (Fin x)) (Fin 26) = Fin 1) [1..25]
           = List.find (\<lambda>x. (a * x) mod 26 = 1) [1..25]"
    by (intro find_cong) (simp_all del: js_mul.simps js_rem.simps)
  have e: "[1..(26::int) - 1] = [1..25]" by simp
  show ?thesis
    unfolding modInverse_def Let_def mod_js_def[symmetric] mod_js_26 e f ..
qed

lemma find_SomeD: "List.find P xs = Some x \<Longrightarrow> P x \<and> x \<in> set xs"
  by (auto simp: find_Some_iff)

lemma find_exists: "x \<in> set xs \<Longrightarrow> P x \<Longrightarrow> \<exists>y. List.find P xs = Some y"
  by (cases "List.find P xs") (auto simp: find_None_iff)

lemma modInverse_coprime:
  assumes "gcd a 26 = 1"
  obtains aInv where "modInverse (Fin a) 26 = Some (Fin aInv)" "1 \<le> aInv" "aInv \<le> 25"
    "(a * aInv) mod 26 = 1"
proof -
  from inverse_exists[OF assms] obtain x where "x \<in> set [1..25]" "(a * x) mod 26 = 1" by blast
  then obtain aInv where f: "List.find (\<lambda>x. (a * x) mod 26 = 1) [1..25] = Some aInv"
    using find_exists[of x "[1..25]" "\<lambda>x. (a * x) mod 26 = 1"] by blast
  from find_SomeD[OF f] have "(a * aInv) mod 26 = 1" "1 \<le> aInv" "aInv \<le> 25" by simp_all
  moreover have "modInverse (Fin a) 26 = Some (Fin aInv)" by (simp add: modInverse_26 f)
  ultimately show ?thesis using that by blast
qed

lemma modInverse_not_coprime:
  assumes "gcd a 26 \<noteq> 1"
  shows "modInverse (Fin a) 26 = None"
proof -
  have "(a * x) mod 26 \<noteq> 1" for x
  proof
    assume "(a * x) mod 26 = 1"
    then have "a * x + 26 * (- ((a * x) div 26)) = 1"
      using mult_div_mod_eq[of 26 "a * x"] by simp
    then have "gcd a 26 dvd 1" by (metis dvd_add_right_iff dvd_triv_left gcd_dvd1 gcd_dvd2 dvd_mult2)
    with assms show False by simp
  qed
  then show ?thesis by (simp add: modInverse_26 find_None_iff)
qed

lemma affine_enc_letter:
  assumes a: "0 \<le> a" "a \<le> 281474976710656" and b: "\<bar>b\<bar> \<le> 281474976710656"
    and c: "b0 \<le> c" "c < b0 + 26" and b0: "0 \<le> b0" "b0 \<le> 100"
  shows "js_add (mod_js (js_add (js_mul (Fin a) (js_sub (Fin c) (Fin b0))) (Fin b)) (Fin 26)) (Fin b0)
       = Fin ((a * (c - b0) + b) mod 26 + b0)"
proof -
  have 1: "js_sub (Fin c) (Fin b0) = Fin (c - b0)" using c b0 by (intro js_sub_fin) linarith
  have x: "0 \<le> c - b0" "c - b0 \<le> 25" using c by simp_all
  have m: "a * (c - b0) \<le> 281474976710656 * 25" using a x by (intro mult_mono) simp_all
  have n: "0 \<le> a * (c - b0)" using a x by simp
  have 2: "js_mul (Fin a) (Fin (c - b0)) = Fin (a * (c - b0))"
    using m n by (intro js_mul_fin) linarith
  have 3: "js_add (Fin (a * (c - b0))) (Fin b) = Fin (a * (c - b0) + b)"
    using m n b by (intro js_add_fin) linarith
  have 4: "0 \<le> (a * (c - b0) + b) mod 26" "(a * (c - b0) + b) mod 26 < 26" by simp_all
  have 5: "js_add (Fin ((a * (c - b0) + b) mod 26)) (Fin b0) = Fin ((a * (c - b0) + b) mod 26 + b0)"
    using 4 b0 by (intro js_add_fin) linarith
  show ?thesis by (simp only: 1 2 3 mod_js_26 5)
qed

lemma affine_dec_letter:
  assumes a: "1 \<le> aInv" "aInv \<le> 25" and b: "\<bar>b\<bar> \<le> 281474976710656"
    and c: "b0 \<le> c" "c < b0 + 26" and b0: "0 \<le> b0" "b0 \<le> 100"
  shows "js_add (mod_js (js_mul (Fin aInv) (js_sub (js_sub (Fin c) (Fin b0)) (Fin b))) (Fin 26)) (Fin b0)
       = Fin ((aInv * (c - b0 - b)) mod 26 + b0)"
proof -
  have 1: "js_sub (Fin c) (Fin b0) = Fin (c - b0)" using c b0 by (intro js_sub_fin) linarith
  have y: "\<bar>c - b0 - b\<bar> \<le> 281474976710681" using c b by simp
  have 2: "js_sub (Fin (c - b0)) (Fin b) = Fin (c - b0 - b)" using y by (intro js_sub_fin) linarith
  have "\<bar>aInv * (c - b0 - b)\<bar> = \<bar>aInv\<bar> * \<bar>c - b0 - b\<bar>" by (rule abs_mult)
  also have "\<dots> \<le> 25 * 281474976710681" using a y by (intro mult_mono) simp_all
  finally have 3: "js_mul (Fin aInv) (Fin (c - b0 - b)) = Fin (aInv * (c - b0 - b))"
    by (intro js_mul_fin) linarith
  have 4: "0 \<le> (aInv * (c - b0 - b)) mod 26" "(aInv * (c - b0 - b)) mod 26 < 26" by simp_all
  have 5: "js_add (Fin ((aInv * (c - b0 - b)) mod 26)) (Fin b0) = Fin ((aInv * (c - b0 - b)) mod 26 + b0)"
    using 4 b0 by (intro js_add_fin) linarith
  show ?thesis by (simp only: 1 2 3 mod_js_26 5)
qed

lemma affineEncrypt_letter_map:
  assumes "0 < a" "a \<le> 281474976710656" "\<bar>b\<bar> \<le> 281474976710656" "gcd a 26 = 1"
  shows "affineEncrypt T (Fin a) (Fin b) = Some (Inr (map (letter_map (\<lambda>x. a * x + b)) T))"
proof -
  have a: "0 \<le> a" using assms by simp
  have g: "gcd_js (Fin a) (Fin 26) = Some (Fin 1)" using a assms(4) by (simp add: gcd_js_nonneg)
  show ?thesis
    unfolding affineEncrypt_def g
    by (simp add: Let_def letter_map_def is_lower_code is_upper_code charCodeAt0_def
         affine_enc_letter[OF a assms(2,3)])
qed

lemma affineDecrypt_letter_map:
  assumes "modInverse (Fin a) 26 = Some (Fin aInv)" "1 \<le> aInv" "aInv \<le> 25"
    "\<bar>b\<bar> \<le> 281474976710656"
  shows "affineDecrypt T (Fin a) (Fin b) = Inr (map (letter_map (\<lambda>y. aInv * (y - b))) T)"
  unfolding affineDecrypt_def assms(1)
  by (simp add: Let_def letter_map_def is_lower_code is_upper_code charCodeAt0_def
         affine_dec_letter[OF assms(2,3,4)])

lemma affine_inverse_arith:
  assumes "(a * aInv) mod 26 = (1::int)" "0 \<le> x" "x < 26"
  shows "(aInv * ((a * x + b) mod 26 - b)) mod 26 = x"
proof -
  have "(aInv * ((a * x + b) mod 26 - b)) mod 26 = (aInv * ((a * x + b) - b)) mod 26"
    by (metis mod_diff_left_eq mod_mult_right_eq)
  also have "\<dots> = ((a * aInv) * x) mod 26" by (simp add: mult.assoc mult.left_commute)
  also have "\<dots> = ((a * aInv) mod 26 * x) mod 26" by (simp add: mod_mult_left_eq)
  also have "\<dots> = x" using assms by simp
  finally show ?thesis .
qed

text \<open>
  Claim C2. For every valid affine key \<open>(a, b)\<close> and every text \<open>T\<close>,
  \<^verbatim>\<open>affineDecrypt(affineEncrypt(T, a, b), a, b)\<close> returns \<open>T\<close>. The valid keys of the
  specification are the multipliers \<open>a\<close> of 1..25 coprime to 26 with \<open>b\<close> in 0..25; the
  theorem covers every positive multiplier coprime to 26 and every offset, both of magnitude at
  most \<open>2^48\<close>, where the products and sums of the cipher are exact.
\<close>

theorem affine_roundtrip_valid_key:
  assumes "0 < a" "a \<le> 281474976710656" "\<bar>b\<bar> \<le> 281474976710656" "gcd a 26 = 1"
  shows "affine_roundtrip T (Fin a) (Fin b) = Some (Inr T)"
proof -
  obtain aInv where i: "modInverse (Fin a) 26 = Some (Fin aInv)" "1 \<le> aInv" "aInv \<le> 25"
    "(a * aInv) mod 26 = 1"
    using modInverse_coprime[OF assms(4)] by blast
  have "letter_map (\<lambda>y. aInv * (y - b)) (letter_map (\<lambda>x. a * x + b) ch) = ch" for ch
    by (rule letter_map_inv) (rule affine_inverse_arith[OF i(4)])
  then show ?thesis
    by (simp add: affine_roundtrip_def affineEncrypt_letter_map[OF assms]
        affineDecrypt_letter_map[OF i(1,2,3) assms(3)] map_idI)
qed

theorem affine_roundtrip_valid_key_witness:
  "((0::int) < 5 \<and> (5::int) \<le> 281474976710656 \<and> \<bar>8::int\<bar> \<le> 281474976710656 \<and> gcd (5::int) 26 = 1)
   \<and> affine_roundtrip ''Hello, World'' (Fin 5) (Fin 8) = Some (Inr ''Hello, World'')"
proof -
  have h: "(0::int) < 5" "(5::int) \<le> 281474976710656" "\<bar>8::int\<bar> \<le> 281474976710656"
    by simp_all
  have g: "gcd (5::int) 26 = 1" by code_simp
  from h g affine_roundtrip_valid_key [OF h g] show ?thesis by blast
qed

text \<open>On a negative first argument the \<^verbatim>\<open>gcd\<close> of the source can return a negative
  number: \<open>- 3\<close> is coprime to 26 and is rejected by the key test, \<open>- 5\<close> is accepted.\<close>

lemma gcd_js_negative:
  "gcd_js (Fin (- 3)) (Fin 26) = Some (Fin (- 1)) \<and> gcd_js (Fin (- 5)) (Fin 26) = Some (Fin 1)"
  by code_simp

text \<open>
  Claim C6, as amended. For every integer \<open>a \<ge> 0\<close>, \<^verbatim>\<open>affineEncrypt(text, a, b)\<close> raises
  the invalid-key error exactly when \<open>gcd(a, 26) \<noteq> 1\<close>, which is exactly when \<open>a mod 26\<close> is not
  one of 1, 3, 5, 7, 9, 11, 15, 17, 19, 21, 23, 25, and returns a text otherwise.
\<close>

theorem affineEncrypt_fails_iff:
  assumes "0 \<le> a"
  shows "(affineEncrypt T (Fin a) b = Some (Inl InvalidKey) \<longleftrightarrow> gcd a 26 \<noteq> 1)
       \<and> (affineEncrypt T (Fin a) b = Some (Inl InvalidKey) \<longleftrightarrow> a mod 26 \<notin> set validA)
       \<and> ((\<exists>C. affineEncrypt T (Fin a) b = Some (Inr C)) \<longleftrightarrow> gcd a 26 = 1)"
proof -
  have g: "gcd_js (Fin a) (Fin 26) = Some (Fin (gcd a 26))" using assms by (simp add: gcd_js_nonneg)
  have "gcd (a mod 26) 26 = gcd a 26"
    by (metis gcd.commute gcd_red_int)
  then have v: "a mod 26 \<in> set validA \<longleftrightarrow> gcd a 26 = 1"
    using validA_iff[of "a mod 26"] by simp
  show ?thesis by (auto simp: affineEncrypt_def g v)
qed

theorem affineEncrypt_fails_iff_witness:
  "(0::int) \<le> 27
   \<and> ((affineEncrypt ''b'' (Fin 27) (Fin 0) = Some (Inl InvalidKey) \<longleftrightarrow> gcd (27::int) 26 \<noteq> 1)
       \<and> (affineEncrypt ''b'' (Fin 27) (Fin 0) = Some (Inl InvalidKey) \<longleftrightarrow> 27 mod 26 \<notin> set validA)
       \<and> ((\<exists>C. affineEncrypt ''b'' (Fin 27) (Fin 0) = Some (Inr C)) \<longleftrightarrow> gcd (27::int) 26 = 1))"
proof -
  have h: "(0::int) \<le> 27" by simp
  from h affineEncrypt_fails_iff [OF h] show ?thesis by (rule conjI)
qed

text \<open>
  Claim C6 as stated fails at \<open>a = 27\<close>: it is not one of the twelve listed multipliers,
  and \<^verbatim>\<open>affineEncrypt("b", 27, 0)\<close> raises nothing and returns \<^verbatim>\<open>"b"\<close>.
\<close>

theorem affineEncrypt_27_counterexample:
  "27 \<notin> set validA \<and> affineEncrypt ''b'' (Fin 27) (Fin 0) = Some (Inr ''b'')"
  by code_simp

section \<open>Hill cipher: exact arithmetic on small keys\<close>

lemma abs_mult_le: "\<bar>x\<bar> \<le> A \<Longrightarrow> \<bar>y\<bar> \<le> B \<Longrightarrow> \<bar>x * y :: int\<bar> \<le> A * B"
  unfolding abs_mult by (rule mult_mono) auto

lemma js_mul_small:
  assumes "\<bar>x\<bar> \<le> A" "\<bar>y\<bar> \<le> B" "A * B \<le> 9007199254740992"
  shows "js_mul (Fin x) (Fin y) = Fin (x * y)"
  using abs_mult_le[OF assms(1,2)] assms(3) by (intro js_mul_fin) linarith

lemma js_sub_small:
  assumes "\<bar>x\<bar> \<le> A" "\<bar>y\<bar> \<le> B" "A + B \<le> 9007199254740992"
  shows "js_sub (Fin x) (Fin y) = Fin (x - y)"
  using assms by (intro js_sub_fin) linarith

lemma js_add_small:
  assumes "\<bar>x\<bar> \<le> A" "\<bar>y\<bar> \<le> B" "A + B \<le> 9007199254740992"
  shows "js_add (Fin x) (Fin y) = Fin (x + y)"
  using assms by (intro js_add_fin) linarith

lemma minor_small:
  assumes "\<bar>a\<bar> \<le> 100000" "\<bar>b\<bar> \<le> 100000" "\<bar>c\<bar> \<le> 100000" "\<bar>d\<bar> \<le> 100000"
  shows "js_sub (js_mul (Fin a) (Fin b)) (js_mul (Fin c) (Fin d)) = Fin (a * b - c * d)"
    "\<bar>a * b - c * d\<bar> \<le> 20000000000"
proof -
  have 1: "js_mul (Fin a) (Fin b) = Fin (a * b)" "js_mul (Fin c) (Fin d) = Fin (c * d)"
    using assms(1,2) apply (rule js_mul_small) apply simp
    using assms(3,4) apply (rule js_mul_small) apply simp
    done
  have 2: "\<bar>a * b\<bar> \<le> 10000000000" "\<bar>c * d\<bar> \<le> 10000000000"
    using abs_mult_le[OF assms(1,2)] abs_mult_le[OF assms(3,4)] by simp_all
  show "js_sub (js_mul (Fin a) (Fin b)) (js_mul (Fin c) (Fin d)) = Fin (a * b - c * d)"
    unfolding 1 using 2 by (intro js_sub_small[where A = 10000000000 and B = 10000000000]) simp_all
  show "\<bar>a * b - c * d\<bar> \<le> 20000000000" using 2 by linarith
qed

lemma cofactor_term_small:
  assumes "\<bar>x\<bar> \<le> 100000" "\<bar>w\<bar> \<le> 20000000000"
  shows "js_mul (Fin x) (Fin w) = Fin (x * w)" "\<bar>x * w\<bar> \<le> 2000000000000000"
proof -
  show "js_mul (Fin x) (Fin w) = Fin (x * w)" using assms by (rule js_mul_small) simp
  show "\<bar>x * w\<bar> \<le> 2000000000000000" using abs_mult_le[OF assms] by simp
qed

lemma det3x3_small: "small_key m \<Longrightarrow> det3x3 (mat_of m) = Fin (det_int m)"
proof (cases m rule: entries.cases)
  case (1 m00 m01 m02 m10 m11 m12 m20 m21 m22)
  assume "small_key m"
  then have s: "\<bar>m00\<bar> \<le> 100000" "\<bar>m01\<bar> \<le> 100000" "\<bar>m02\<bar> \<le> 100000"
    "\<bar>m10\<bar> \<le> 100000" "\<bar>m11\<bar> \<le> 100000" "\<bar>m12\<bar> \<le> 100000"
    "\<bar>m20\<bar> \<le> 100000" "\<bar>m21\<bar> \<le> 100000" "\<bar>m22\<bar> \<le> 100000"
    by (simp_all add: small_key_def 1)
  note A = minor_small[OF s(5) s(9) s(6) s(8)]
  note B = minor_small[OF s(4) s(9) s(6) s(7)]
  note C = minor_small[OF s(4) s(8) s(5) s(7)]
  note tA = cofactor_term_small[OF s(1) A(2)]
  note tB = cofactor_term_small[OF s(2) B(2)]
  note tC = cofactor_term_small[OF s(3) C(2)]
  have d1: "js_sub (Fin (m00 * (m11 * m22 - m12 * m21))) (Fin (m01 * (m10 * m22 - m12 * m20)))
          = Fin (m00 * (m11 * m22 - m12 * m21) - m01 * (m10 * m22 - m12 * m20))"
    using tA(2) tB(2) by (rule js_sub_small) simp
  have b1: "\<bar>m00 * (m11 * m22 - m12 * m21) - m01 * (m10 * m22 - m12 * m20)\<bar> \<le> 4000000000000000"
    using tA(2) tB(2) by linarith
  have d2: "js_add (Fin (m00 * (m11 * m22 - m12 * m21) - m01 * (m10 * m22 - m12 * m20)))
                   (Fin (m02 * (m10 * m21 - m11 * m20)))
          = Fin (m00 * (m11 * m22 - m12 * m21) - m01 * (m10 * m22 - m12 * m20)
                 + m02 * (m10 * m21 - m11 * m20))"
    using b1 tC(2) by (rule js_add_small) simp
  show ?thesis
    by (simp only: 1 mat_of.simps det3x3.simps det_int.simps A(1) B(1) C(1) tA(1) tB(1) tC(1) d1 d2)
qed

lemma adjugate3x3_small: "small_key m \<Longrightarrow> adjugate3x3 (mat_of m) = mat_of (adj_int m)"
proof (cases m rule: entries.cases)
  case (1 m00 m01 m02 m10 m11 m12 m20 m21 m22)
  assume "small_key m"
  then have s: "\<bar>m00\<bar> \<le> 100000" "\<bar>m01\<bar> \<le> 100000" "\<bar>m02\<bar> \<le> 100000"
    "\<bar>m10\<bar> \<le> 100000" "\<bar>m11\<bar> \<le> 100000" "\<bar>m12\<bar> \<le> 100000"
    "\<bar>m20\<bar> \<le> 100000" "\<bar>m21\<bar> \<le> 100000" "\<bar>m22\<bar> \<le> 100000"
    by (simp_all add: small_key_def 1)
  show ?thesis
    by (simp add: 1 Let_def minor_small(1) s del: js_mul.simps js_add.simps)
qed

lemma adj_int_bound:
  assumes "small_key m"
  shows "list_all (\<lambda>x. \<bar>x\<bar> \<le> 20000000000) (entries (adj_int m))"
proof (cases m rule: entries.cases)
  case (1 m00 m01 m02 m10 m11 m12 m20 m21 m22)
  from assms have s: "\<bar>m00\<bar> \<le> 100000" "\<bar>m01\<bar> \<le> 100000" "\<bar>m02\<bar> \<le> 100000"
    "\<bar>m10\<bar> \<le> 100000" "\<bar>m11\<bar> \<le> 100000" "\<bar>m12\<bar> \<le> 100000"
    "\<bar>m20\<bar> \<le> 100000" "\<bar>m21\<bar> \<le> 100000" "\<bar>m22\<bar> \<le> 100000"
    by (simp_all add: small_key_def 1)
  show ?thesis
    by (simp add: 1 minor_small(2) s)
qed

lemma map_mat3_scaled:
  assumes "1 \<le> dI" "dI \<le> 25" "list_all (\<lambda>x. \<bar>x\<bar> \<le> 20000000000) (entries A)"
  shows "map_mat3 (\<lambda>val. mod_js (js_mul (Fin dI) val) (Fin 26)) (mat_of A)
       = mat_of (map_imat3 (\<lambda>val. (dI * val) mod 26) A)"
proof (cases A rule: entries.cases)
  case A: (1 a00 a01 a02 a10 a11 a12 a20 a21 a22)
  have "mod_js (js_mul (Fin dI) (Fin x)) (Fin 26) = Fin ((dI * x) mod 26)"
    if "\<bar>x\<bar> \<le> 20000000000" for x
  proof -
    have "\<bar>dI\<bar> \<le> 25" using assms(1,2) by simp
    then have "js_mul (Fin dI) (Fin x) = Fin (dI * x)" using that by (rule js_mul_small) simp
    then show ?thesis by (simp only: mod_js_26)
  qed
  then show ?thesis using assms(3) by (simp add: A del: js_mul.simps)
qed

lemma inverseMatrix_small:
  assumes "small_key m" "gcd (det_int m mod 26) 26 = 1"
  obtains dI where "1 \<le> dI" "dI \<le> 25" "(det_int m * dI) mod 26 = 1"
    "inverseMatrix3x3Mod26 (mat_of m)
     = Some (Inr (mat_of (map_imat3 (\<lambda>val. (dI * val) mod 26) (adj_int m))))"
proof -
  let ?d = "det_int m mod 26"
  have g: "gcd_js (Fin ?d) (Fin 26) = Some (Fin 1)"
    using assms(2) by (simp add: gcd_js_nonneg)
  obtain dI where i: "modInverse (Fin ?d) 26 = Some (Fin dI)" "1 \<le> dI" "dI \<le> 25"
    "(?d * dI) mod 26 = 1"
    using modInverse_coprime[OF assms(2)] by blast
  have 1: "(det_int m * dI) mod 26 = 1" using i(4) by (simp add: mod_mult_left_eq)
  note e = map_mat3_scaled[OF i(2,3) adj_int_bound[OF assms(1)]]
  have "inverseMatrix3x3Mod26 (mat_of m)
        = Some (Inr (mat_of (map_imat3 (\<lambda>val. (dI * val) mod 26) (adj_int m))))"
    by (simp add: inverseMatrix3x3Mod26_def Let_def det3x3_small[OF assms(1)]
        adjugate3x3_small[OF assms(1)] mod_js_26 g i(1) e del: js_mul.simps mat_of.simps)
  with i(2,3) 1 show ?thesis by (rule that)
qed

lemma vec_at_3: "vec_at [v0, v1, v2] 0 = v0" "vec_at [v0, v1, v2] 1 = v1"
  "vec_at [v0, v1, v2] 2 = v2"
  by (simp_all add: vec_at_def)

lemma row_sum_small:
  assumes r: "\<bar>r0\<bar> \<le> 100000" "\<bar>r1\<bar> \<le> 100000" "\<bar>r2\<bar> \<le> 100000"
    and v: "\<bar>v0\<bar> \<le> 25" "\<bar>v1\<bar> \<le> 25" "\<bar>v2\<bar> \<le> 25"
  shows "row_sum (Fin r0, Fin r1, Fin r2) [Fin v0, Fin v1, Fin v2]
       = Fin (r0 * v0 + r1 * v1 + r2 * v2)"
proof -
  have m: "js_mul (Fin r0) (Fin v0) = Fin (r0 * v0)" "js_mul (Fin r1) (Fin v1) = Fin (r1 * v1)"
    "js_mul (Fin r2) (Fin v2) = Fin (r2 * v2)"
    using r(1) v(1) apply (rule js_mul_small) apply simp
    using r(2) v(2) apply (rule js_mul_small) apply simp
    using r(3) v(3) apply (rule js_mul_small) apply simp
    done
  have b: "\<bar>r0 * v0\<bar> \<le> 2500000" "\<bar>r1 * v1\<bar> \<le> 2500000" "\<bar>r2 * v2\<bar> \<le> 2500000"
    using abs_mult_le[OF r(1) v(1)] abs_mult_le[OF r(2) v(2)] abs_mult_le[OF r(3) v(3)]
    by simp_all
  have 1: "js_add (Fin 0) (Fin (r0 * v0)) = Fin (r0 * v0)"
    using b(1) by (simp add: fround_exact)
  have 2: "js_add (Fin (r0 * v0)) (Fin (r1 * v1)) = Fin (r0 * v0 + r1 * v1)"
    using b(1,2) by (rule js_add_small) simp
  have 3: "js_add (Fin (r0 * v0 + r1 * v1)) (Fin (r2 * v2)) = Fin (r0 * v0 + r1 * v1 + r2 * v2)"
    using b by (intro js_add_small[where A = 5000000 and B = 2500000]) simp_all
  show ?thesis by (simp only: row_sum.simps vec_at_3 m 1 2 3)
qed

lemma matrixVectorMult3_small:
  assumes "small_key m" "\<bar>v0\<bar> \<le> 25" "\<bar>v1\<bar> \<le> 25" "\<bar>v2\<bar> \<le> 25"
  shows "matrixVectorMult3 (mat_of m) [Fin v0, Fin v1, Fin v2]
       = (case m of (row0, row1, row2) \<Rightarrow>
            [Fin (dot26 row0 v0 v1 v2), Fin (dot26 row1 v0 v1 v2), Fin (dot26 row2 v0 v1 v2)])"
proof (cases m rule: entries.cases)
  case (1 m00 m01 m02 m10 m11 m12 m20 m21 m22)
  from assms(1) have s: "\<bar>m00\<bar> \<le> 100000" "\<bar>m01\<bar> \<le> 100000" "\<bar>m02\<bar> \<le> 100000"
    "\<bar>m10\<bar> \<le> 100000" "\<bar>m11\<bar> \<le> 100000" "\<bar>m12\<bar> \<le> 100000"
    "\<bar>m20\<bar> \<le> 100000" "\<bar>m21\<bar> \<le> 100000" "\<bar>m22\<bar> \<le> 100000"
    by (simp_all add: small_key_def 1)
  show ?thesis
    by (simp add: 1 dot26_def mod_js_26 row_sum_small s assms(2-4) del: row_sum.simps)
qed

lemma index_of_upper: "is_upper ch \<Longrightarrow> 0 \<le> index_of ch \<and> index_of ch < 26"
  by (simp add: index_of_def is_upper_code)

lemma letter_of_index_of: "letter_of (index_of ch) = ch"
  by (simp add: letter_of_def index_of_def code_def)

lemma letter_of_upper:
  assumes "0 \<le> n" "n < 26"
  shows "is_upper (letter_of n)" "index_of (letter_of n) = n"
proof -
  have c: "code (letter_of n) = n + 65"
    unfolding letter_of_def using assms by (intro code_char_of) linarith+
  show "is_upper (letter_of n)" using assms by (simp add: is_upper_code c)
  show "index_of (letter_of n) = n" by (simp add: index_of_def c)
qed

lemma dot26_range: "0 \<le> dot26 r v0 v1 v2" "dot26 r v0 v1 v2 < 26"
  by (simp_all add: dot26_def split: prod.splits)

lemma upper_units_upper: "is_upper ch \<Longrightarrow> upper_units ch = [of_char ch]"
  by (simp add: upper_units_def Let_def is_upper_code code_int)

lemma textToVector_upper:
  assumes "is_upper c0" "is_upper c1" "is_upper c2"
  shows "textToVector [c0, c1, c2] = [Fin (index_of c0), Fin (index_of c1), Fin (index_of c2)]"
proof -
  have "(let code = js_sub (Fin (int (hd (upper_units ch)))) (Fin 65)
         in case code of Fin c \<Rightarrow> if 0 \<le> c \<and> c < 26 then code else Fin 0 | _ \<Rightarrow> Fin 0)
        = Fin (index_of ch)" if "is_upper ch" for ch
  proof -
    have "js_sub (Fin (int (of_char ch))) (Fin 65) = Fin (index_of ch)"
      using code_range[of ch] unfolding index_of_def code_int by (intro js_sub_fin) linarith
    then show ?thesis
      using index_of_upper[OF that] by (simp add: upper_units_upper[OF that])
  qed
  then show ?thesis using assms by (simp add: textToVector_def)
qed

lemma vectorToText_small:
  assumes "0 \<le> x" "x < 26"
  shows "fromCharCode (js_add (mod_js (Fin x) (Fin 26)) (Fin 65)) = letter_of x"
proof -
  have "js_add (Fin (x mod 26)) (Fin 65) = Fin (x mod 26 + 65)"
    using assms by (intro js_add_fin) simp
  then show ?thesis using assms by (simp only: mod_js_26) (simp add: letter_of_def)
qed

lemma hill_loop_block:
  assumes "small_key m" "is_upper c0" "is_upper c1" "is_upper c2"
  shows "hill_loop (mat_of m) (c0 # c1 # c2 # rest) =
     (case m of (row0, row1, row2) \<Rightarrow>
       letter_of (dot26 row0 (index_of c0) (index_of c1) (index_of c2))
       # letter_of (dot26 row1 (index_of c0) (index_of c1) (index_of c2))
       # letter_of (dot26 row2 (index_of c0) (index_of c1) (index_of c2))
       # hill_loop (mat_of m) rest)"
proof -
  have v: "\<bar>index_of c0\<bar> \<le> 25" "\<bar>index_of c1\<bar> \<le> 25" "\<bar>index_of c2\<bar> \<le> 25"
    using index_of_upper[OF assms(2)] index_of_upper[OF assms(3)] index_of_upper[OF assms(4)]
    by simp_all
  show ?thesis
    by (simp add: hill_loop.simps[of "mat_of m" "c0 # c1 # c2 # rest"]
        textToVector_upper[OF assms(2-4)]
        matrixVectorMult3_small[OF assms(1) v] vectorToText_def vectorToText_small dot26_range
        del: mat_of.simps js_add.simps
        split: prod.splits)
qed

lemma hill_loop_ref:
  "small_key m \<Longrightarrow> all_upper T \<Longrightarrow> length T mod 3 = 0 \<Longrightarrow> hill_loop (mat_of m) T = hill_ref m T"
proof (induction m T rule: hill_ref.induct)
  case (1 row0 row1 row2 c0 c1 c2 rest)
  have u: "is_upper c0" "is_upper c1" "is_upper c2" "all_upper rest"
    using 1(3) by (simp_all add: all_upper_def)
  have l: "length rest mod 3 = 0" using 1(4) by simp
  show ?case
    by (simp add: hill_loop_block[OF 1(2) u(1-3)] 1(1)[OF refl refl refl 1(2) u(4) l] Let_def
         del: mat_of.simps)
qed (simp_all add: hill_loop.simps)

lemma hill_ref_upper:
  "all_upper (hill_ref m T)"
  by (induction m T rule: hill_ref.induct)
     (simp_all add: all_upper_def Let_def letter_of_upper dot26_range)

lemma hill_ref_length:
  "length T mod 3 = 0 \<Longrightarrow> length (hill_ref m T) = length T"
  by (induction m T rule: hill_ref.induct) (simp_all add: Let_def)

lemma adj_mult_row0:
  fixes a b c d e f g h i :: int
  shows "(e * i - f * h) * (a * v0 + b * v1 + c * v2)
       + (- (b * i - c * h)) * (d * v0 + e * v1 + f * v2)
       + (b * f - c * e) * (g * v0 + h * v1 + i * v2)
       = (a * (e * i - f * h) - b * (d * i - f * g) + c * (d * h - e * g)) * v0"
  by (simp add: algebra_simps)

lemma adj_mult_row1:
  fixes a b c d e f g h i :: int
  shows "(- (d * i - f * g)) * (a * v0 + b * v1 + c * v2)
       + (a * i - c * g) * (d * v0 + e * v1 + f * v2)
       + (- (a * f - c * d)) * (g * v0 + h * v1 + i * v2)
       = (a * (e * i - f * h) - b * (d * i - f * g) + c * (d * h - e * g)) * v1"
  by (simp add: algebra_simps)

lemma adj_mult_row2:
  fixes a b c d e f g h i :: int
  shows "(d * h - e * g) * (a * v0 + b * v1 + c * v2)
       + (- (a * h - b * g)) * (d * v0 + e * v1 + f * v2)
       + (a * e - b * d) * (g * v0 + h * v1 + i * v2)
       = (a * (e * i - f * h) - b * (d * i - f * g) + c * (d * h - e * g)) * v2"
  by (simp add: algebra_simps)

lemma inv_dot:
  fixes D dI :: int
  assumes "(D * dI) mod 26 = 1"
    and "A0 * x0 + A1 * x1 + A2 * x2 = D * v"
  shows "((dI * A0) mod 26 * (x0 mod 26) + (dI * A1) mod 26 * (x1 mod 26)
          + (dI * A2) mod 26 * (x2 mod 26)) mod 26 = v mod 26"
proof -
  have "((dI * A0) mod 26 * (x0 mod 26) + (dI * A1) mod 26 * (x1 mod 26)
          + (dI * A2) mod 26 * (x2 mod 26)) mod 26
      = (dI * A0 * x0 + dI * A1 * x1 + dI * A2 * x2) mod 26"
    by (intro mod_add_cong) (simp_all add: mod_mult_eq)
  also have "dI * A0 * x0 + dI * A1 * x1 + dI * A2 * x2 = dI * (A0 * x0 + A1 * x1 + A2 * x2)"
    by (simp add: algebra_simps)
  also have "\<dots> = (D * dI) * v" by (simp add: assms(2))
  also have "((D * dI) * v) mod 26 = ((D * dI) mod 26 * v) mod 26"
    by (simp add: mod_simps)
  also have "\<dots> = v mod 26" by (simp add: assms(1))
  finally show ?thesis .
qed

lemma list3_induct [case_names step Nil one two]:
  fixes Q :: "string \<Rightarrow> bool"
  assumes "\<And>c0 c1 c2 rest. Q rest \<Longrightarrow> Q (c0 # c1 # c2 # rest)"
    and "Q []" and "\<And>c. Q [c]" and "\<And>c d. Q [c, d]"
  shows "Q T"
  by (rule hill_ref.induct[where P = "\<lambda>_. Q" and ?a0.0 = "undefined"]) (auto intro: assms)

lemma hill_ref_inverse:
  assumes I: "(det_int M * dI) mod 26 = 1"
  shows "all_upper T \<Longrightarrow> length T mod 3 = 0 \<Longrightarrow>
     hill_ref (map_imat3 (\<lambda>val. (dI * val) mod 26) (adj_int M)) (hill_ref M T) = T"
proof (cases M rule: entries.cases)
  case M: (1 a b c d e f g h i)
  let ?D = "a * (e * i - f * h) - b * (d * i - f * g) + c * (d * h - e * g)"
  have D: "(?D * dI) mod 26 = 1" using I by (simp add: M)
  assume "all_upper T" "length T mod 3 = 0"
  then show ?thesis
  proof (induction T rule: list3_induct)
    case (step c0 c1 c2 rest)
    have u: "is_upper c0" "is_upper c1" "is_upper c2" "all_upper rest"
      using step(2) by (simp_all add: all_upper_def)
    have l: "length rest mod 3 = 0" using step(3) by simp
    note IH = step(1)[OF u(4) l]
    let ?v0 = "index_of c0" and ?v1 = "index_of c1" and ?v2 = "index_of c2"
    let ?x0 = "a * ?v0 + b * ?v1 + c * ?v2"
    let ?x1 = "d * ?v0 + e * ?v1 + f * ?v2"
    let ?x2 = "g * ?v0 + h * ?v1 + i * ?v2"
    have ix: "index_of (letter_of (x mod 26)) = x mod 26" for x
      by (rule letter_of_upper(2)) simp_all
    have v: "?v0 mod 26 = ?v0" "?v1 mod 26 = ?v1" "?v2 mod 26 = ?v2"
      using index_of_upper[OF u(1)] index_of_upper[OF u(2)] index_of_upper[OF u(3)] by simp_all
    have r0: "((dI * (e * i - f * h)) mod 26 * (?x0 mod 26)
             + (dI * (- (b * i - c * h))) mod 26 * (?x1 mod 26)
             + (dI * (b * f - c * e)) mod 26 * (?x2 mod 26)) mod 26 = ?v0 mod 26"
      by (rule inv_dot[OF D adj_mult_row0])
    have r1: "((dI * (- (d * i - f * g))) mod 26 * (?x0 mod 26)
             + (dI * (a * i - c * g)) mod 26 * (?x1 mod 26)
             + (dI * (- (a * f - c * d))) mod 26 * (?x2 mod 26)) mod 26 = ?v1 mod 26"
      by (rule inv_dot[OF D adj_mult_row1])
    have r2: "((dI * (d * h - e * g)) mod 26 * (?x0 mod 26)
             + (dI * (- (a * h - b * g))) mod 26 * (?x1 mod 26)
             + (dI * (a * e - b * d)) mod 26 * (?x2 mod 26)) mod 26 = ?v2 mod 26"
      by (rule inv_dot[OF D adj_mult_row2])
    have b: "hill_ref (map_imat3 (\<lambda>val. (dI * val) mod 26) (adj_int M)) (hill_ref M (c0 # c1 # c2 # rest))
        = letter_of (?v0 mod 26) # letter_of (?v1 mod 26) # letter_of (?v2 mod 26)
          # hill_ref (map_imat3 (\<lambda>val. (dI * val) mod 26) (adj_int M)) (hill_ref M rest)"
      unfolding M adj_int.simps map_imat3.simps hill_ref.simps Let_def dot26_def prod.case ix r0 r1 r2
      by (rule refl)
    show ?case
      unfolding b IH v by (simp only: letter_of_index_of)
  qed (simp_all add: M)
qed

lemma canonical_text:
  assumes "all_upper T"
  shows "strip_non_AZ (toUpperCase T) = T"
proof -
  have u: "toUpperCase T = map of_char T"
    using assms by (induction T) (simp_all add: toUpperCase_def all_upper_def upper_units_upper)
  have "filter (\<lambda>u. 65 \<le> u \<and> u \<le> 90) (map of_char T :: nat list) = map of_char T"
    using assms by (induction T) (simp_all add: all_upper_def is_upper_code code_int)
  then show ?thesis by (simp add: strip_non_AZ_def u comp_def)
qed

lemma pad_X_whole: "length T mod 3 = 0 \<Longrightarrow> pad_X T = T"
  by (simp add: pad_X.simps[of T])

lemma small_key_inverse: "small_key (map_imat3 (\<lambda>val. (dI * val) mod 26) A)"
proof (cases A rule: entries.cases)
  case (1 a b c d e f g h i)
  have "\<bar>x mod 26\<bar> \<le> 100000" for x :: int
  proof -
    have "0 \<le> x mod 26" "x mod 26 < 26" by simp_all
    then show ?thesis by linarith
  qed
  then show ?thesis by (simp add: 1 small_key_def)
qed

text \<open>
  Claim C3, as amended. For every 3 by 3 integer matrix \<open>M\<close> with entries of magnitude at
  most 100000 whose determinant modulo 26 is coprime to 26, and every text \<open>T\<close> of capital
  letters \<open>A\<close> to \<open>Z\<close> whose length is a multiple of 3,
  \<^verbatim>\<open>hillDecrypt(hillEncrypt(T, M), M)\<close> returns \<open>T\<close>. On such a key the determinant, the
  adjugate and the products of the cipher are computed exactly.
\<close>

theorem hill_roundtrip_canonical:
  assumes "small_key M" "gcd (det_int M mod 26) 26 = 1" "all_upper T" "length T mod 3 = 0"
  shows "hill_roundtrip T (mat_of M) = Some (Inr T)"
proof -
  obtain dI where i: "(det_int M * dI) mod 26 = 1"
    "inverseMatrix3x3Mod26 (mat_of M)
     = Some (Inr (mat_of (map_imat3 (\<lambda>val. (dI * val) mod 26) (adj_int M))))"
    using inverseMatrix_small[OF assms(1,2)] by blast
  let ?N = "map_imat3 (\<lambda>val. (dI * val) mod 26) (adj_int M)"
  let ?C = "hill_ref M T"
  have e: "hillEncrypt T (mat_of M) = ?C"
    by (simp add: hillEncrypt_def canonical_text[OF assms(3)] pad_X_whole[OF assms(4)]
        hill_loop_ref[OF assms(1,3,4)])
  have C: "all_upper ?C" "length ?C mod 3 = 0"
    using hill_ref_upper hill_ref_length[OF assms(4)] assms(4) by simp_all
  have "hillDecrypt ?C (mat_of M) = Some (Inr (hill_loop (mat_of ?N) ?C))"
    by (simp add: hillDecrypt_def canonical_text[OF C(1)] i(2))
  also have "hill_loop (mat_of ?N) ?C = hill_ref ?N ?C"
    using small_key_inverse C by (rule hill_loop_ref)
  also have "\<dots> = T" using i(1) assms(3,4) by (rule hill_ref_inverse)
  finally show ?thesis by (simp add: hill_roundtrip_def e)
qed

theorem hill_roundtrip_canonical_witness:
  "(small_key ((6, 24, 1), (13, 16, 10), (20, 17, 15))
    \<and> gcd (det_int ((6, 24, 1), (13, 16, 10), (20, 17, 15)) mod 26) 26 = 1
    \<and> all_upper ''ACTNOW'' \<and> length ''ACTNOW'' mod 3 = 0)
   \<and> hill_roundtrip ''ACTNOW'' (mat_of ((6, 24, 1), (13, 16, 10), (20, 17, 15)))
     = Some (Inr ''ACTNOW'')"
proof -
  have h: "small_key ((6, 24, 1), (13, 16, 10), (20, 17, 15))"
    "gcd (det_int ((6, 24, 1), (13, 16, 10), (20, 17, 15)) mod 26) 26 = 1"
    "all_upper ''ACTNOW''" "length ''ACTNOW'' mod 3 = 0"
    by code_simp+
  from h hill_roundtrip_canonical [OF h] show ?thesis by blast
qed

text \<open>
  Claim C3 as stated fails on a text that is not in capital letters: with the identity key
  the round trip of \<^verbatim>\<open>"abc"\<close> is \<^verbatim>\<open>"ABC"\<close>, since \<^verbatim>\<open>hillEncrypt\<close> puts the text in upper case
  and removes what is not a letter. It also fails on a key with an entry near \<open>2^53\<close>: with
  the diagonal key \<open>(1, 1, 2^53 - 1)\<close>, of determinant \<open>5\<close> modulo 26 (\<^verbatim>\<open>det3x3\<close> computes this
  determinant exactly), the product \<^verbatim>\<open>9007199254740991 * 3\<close> is rounded and the round trip of
  \<^verbatim>\<open>"AAD"\<close> is \<^verbatim>\<open>"AAI"\<close>.
\<close>

theorem hill_roundtrip_counterexample:
  "length ''abc'' mod 3 = 0
   \<and> gcd (det_int ((1, 0, 0), (0, 1, 0), (0, 0, 1)) mod 26) 26 = 1
   \<and> hill_roundtrip ''abc'' (mat_of ((1, 0, 0), (0, 1, 0), (0, 0, 1))) = Some (Inr ''ABC'')
   \<and> det3x3 (mat_of ((1, 0, 0), (0, 1, 0), (0, 0, 9007199254740991))) = Fin 9007199254740991
   \<and> gcd (det_int ((1, 0, 0), (0, 1, 0), (0, 0, 9007199254740991)) mod 26) 26 = 1
   \<and> hill_roundtrip ''AAD'' (mat_of ((1, 0, 0), (0, 1, 0), (0, 0, 9007199254740991)))
     = Some (Inr ''AAI'')"
  by code_simp

text \<open>A key whose determinant is computed as an infinity: \<^verbatim>\<open>mod(d, 26)\<close> is \<^verbatim>\<open>NaN\<close> and the
  loop of \<^verbatim>\<open>gcd\<close> never ends, so neither \<^verbatim>\<open>inverseMatrix3x3Mod26\<close> nor \<^verbatim>\<open>hillDecrypt\<close>
  returns or raises.\<close>

lemma hillDecrypt_infinite_det:
  assumes "det3x3 m = PInf \<or> det3x3 m = NInf \<or> det3x3 m = NaN"
  shows "hillDecrypt T m = None"
proof -
  have "mod_js (det3x3 m) (Fin 26) = NaN" using assms by (auto simp: mod_js_def)
  then show ?thesis
    by (simp add: hillDecrypt_def inverseMatrix3x3Mod26_def Let_def gcd_js_NaN)
qed

text \<open>
  Claim C5, as amended. For every 3 by 3 integer matrix \<open>M\<close> with entries of magnitude at
  most 100000 such that \<open>gcd(det(M) mod 26, 26) \<noteq> 1\<close>, and every text \<open>T\<close>,
  \<^verbatim>\<open>hillDecrypt(T, M)\<close> raises the invalid-key error: the result is the error alone, no text,
  decoded in part or in whole, is returned.
\<close>

theorem hillDecrypt_invalid_key:
  assumes "small_key M" "gcd (det_int M mod 26) 26 \<noteq> 1"
  shows "hillDecrypt T (mat_of M) = Some (Inl InvalidKey)"
proof -
  have "gcd_js (Fin (det_int M mod 26)) (Fin 26) = Some (Fin (gcd (det_int M mod 26) 26))"
    by (rule gcd_js_nonneg) simp_all
  then show ?thesis
    using assms(2)
    by (simp add: hillDecrypt_def inverseMatrix3x3Mod26_def Let_def det3x3_small[OF assms(1)]
        mod_js_26)
qed

theorem hillDecrypt_invalid_key_witness:
  "(small_key ((2, 0, 0), (0, 1, 0), (0, 0, 1))
    \<and> gcd (det_int ((2, 0, 0), (0, 1, 0), (0, 0, 1)) mod 26) 26 \<noteq> 1)
   \<and> hillDecrypt ''ABCDEF'' (mat_of ((2, 0, 0), (0, 1, 0), (0, 0, 1))) = Some (Inl InvalidKey)"
proof -
  have h: "small_key ((2, 0, 0), (0, 1, 0), (0, 0, 1))"
    "gcd (det_int ((2, 0, 0), (0, 1, 0), (0, 0, 1)) mod 26) 26 \<noteq> 1"
    by code_simp+
  from h hillDecrypt_invalid_key [OF h] show ?thesis by blast
qed

text \<open>
  Claim C5 as stated fails on a key with larger entries. The determinant of the matrix below
  is \<open>- 8873911563659896\<close>, a multiple of 26, but the sum of the three products of
  \<^verbatim>\<open>det3x3\<close> is rounded to \<open>- 8873911563659895\<close>, which is 1 modulo 26: the key test passes
  and \<^verbatim>\<open>hillDecrypt("ABC", M)\<close> returns the text \<^verbatim>\<open>"EHV"\<close>.
\<close>

theorem hillDecrypt_rounded_det_counterexample:
  "det_int ((135224, 133243, - 132549), (- 129798, 132099, - 132365), (128939, - 121260, - 130864))
     = - 8873911563659896
   \<and> gcd (det_int ((135224, 133243, - 132549), (- 129798, 132099, - 132365),
                   (128939, - 121260, - 130864)) mod 26) 26 \<noteq> 1
   \<and> det3x3 (mat_of ((135224, 133243, - 132549), (- 129798, 132099, - 132365),
                     (128939, - 121260, - 130864))) = Fin (- 8873911563659895)
   \<and> hillDecrypt ''ABC'' (mat_of ((135224, 133243, - 132549), (- 129798, 132099, - 132365),
                                  (128939, - 121260, - 130864))) = Some (Inr ''EHV'')"
  by code_simp

text \<open>With the diagonal key \<open>(2^400, 2^400, 2^400)\<close>, whose determinant \<open>2^1200\<close> is even,
  \<^verbatim>\<open>det3x3\<close> computes an infinity and \<^verbatim>\<open>hillDecrypt\<close> does not return: no error is raised
  either.\<close>

lemma hillDecrypt_overflow_hangs:
  "gcd (det_int ((2 ^ 400, 0, 0), (0, 2 ^ 400, 0), (0, 0, 2 ^ 400)) mod 26) 26 \<noteq> 1
   \<and> hillDecrypt ''ABC'' (mat_of ((2 ^ 400, 0, 0), (0, 2 ^ 400, 0), (0, 0, 2 ^ 400))) = None"
proof -
  have "det3x3 (mat_of ((2 ^ 400, 0, 0), (0, 2 ^ 400, 0), (0, 0, 2 ^ 400))) = PInf"
    by code_simp
  then have "hillDecrypt ''ABC'' (mat_of ((2 ^ 400, 0, 0), (0, 2 ^ 400, 0), (0, 0, 2 ^ 400))) = None"
    by (intro hillDecrypt_infinite_det) simp
  moreover have "gcd (det_int ((2 ^ 400, 0, 0), (0, 2 ^ 400, 0), (0, 0, 2 ^ 400)) mod 26) 26 \<noteq> 1"
    by code_simp
  ultimately show ?thesis by (rule conjI[rotated])
qed
section \<open>Playfair cipher: the grid\<close>

lemma push_unseen_fold_set: "set (foldl push_unseen m xs) = set m \<union> set xs"
  by (induction xs arbitrary: m) (auto simp: push_unseen_def)

lemma push_unseen_fold_distinct: "distinct m \<Longrightarrow> distinct (foldl push_unseen m xs)"
  by (induction xs arbitrary: m) (auto simp: push_unseen_def)

lemma capitals: "map char_of [65..<91::nat] = ''ABCDEFGHIJKLMNOPQRSTUVWXYZ''"
  by code_simp

lemma upper_set: "is_upper ch \<longleftrightarrow> ch \<in> set ''ABCDEFGHIJKLMNOPQRSTUVWXYZ''"
proof
  assume "is_upper ch"
  then have "(of_char ch :: nat) \<in> {65..<91}"
    by (simp add: is_upper_def less_eq_char_def)
  then have "(of_char ch :: nat) \<in> set [65..<91]"
    by (simp only: set_upt)
  then have "char_of (of_char ch :: nat) \<in> set (map char_of [65..<91::nat])"
    unfolding set_map by (rule imageI)
  then show "ch \<in> set ''ABCDEFGHIJKLMNOPQRSTUVWXYZ''"
    by (simp only: capitals char_of_char)
next
  assume "ch \<in> set ''ABCDEFGHIJKLMNOPQRSTUVWXYZ''"
  then show "is_upper ch"
    by (auto simp: is_upper_def less_eq_char_def)
qed

lemma alphabet25_set: "ch \<in> set alphabet25 \<longleftrightarrow> is_upper ch \<and> ch \<noteq> CHR ''J''"
  unfolding upper_set by (auto simp: alphabet25_def)

lemma char_of_capital:
  assumes "65 \<le> u" "u \<le> 90"
  shows "is_upper (char_of (u :: nat))" "char_of u = CHR ''J'' \<longleftrightarrow> u = 74"
proof -
  have c: "code (char_of u) = int u"
    using assms by (simp add: code_int)
  show "is_upper (char_of u)" using assms by (simp add: is_upper_code c)
  have "code CHR ''J'' = 74" by (simp add: code_def)
  then show "char_of u = CHR ''J'' \<longleftrightarrow> u = 74"
    using c by (metis char_eq_code of_nat_eq_iff of_nat_numeral)
qed

lemma canonical_set: "ch \<in> set (playfair_canonical T) \<Longrightarrow> ch \<in> set alphabet25"
proof -
  assume "ch \<in> set (playfair_canonical T)"
  then obtain u where u: "ch = char_of u" "65 \<le> u" "u \<le> 90"
    "u \<in> set (replace_J_I (toUpperCase T))"
    by (auto simp: playfair_canonical_def strip_non_AZ_def)
  from u(4) have "u \<noteq> 74" by (auto simp: replace_J_I_def split: if_splits)
  then show ?thesis
    using char_of_capital[OF u(2,3)] by (simp add: alphabet25_set u(1))
qed

lemma flat_matrix_distinct: "distinct (flat_matrix key)"
  by (simp add: flat_matrix_def push_unseen_fold_distinct)

lemma flat_matrix_set: "set (flat_matrix key) = set alphabet25"
  using canonical_set by (auto simp: flat_matrix_def push_unseen_fold_set)

lemma flat_matrix_length: "length (flat_matrix key) = 25"
proof -
  have "distinct alphabet25" "length alphabet25 = 25" by (simp_all add: alphabet25_def)
  then have "card (set alphabet25) = 25" using distinct_card by fastforce
  then show ?thesis
    using distinct_card[OF flat_matrix_distinct, of key] by (simp add: flat_matrix_set)
qed

lemma buildPlayfairMatrix_flat:
  "buildPlayfairMatrix key = map (\<lambda>i. take 5 (drop (i * 5) (flat_matrix key))) [0..<5]"
  by (simp add: buildPlayfairMatrix_def flat_matrix_def playfair_canonical_def Let_def)

lemma cell_flat:
  assumes "row < 5" "col < 5"
  shows "cell key row col = flat_matrix key ! (row * 5 + col)"
proof -
  have "row * 5 + col < 25" using assms by simp
  then show ?thesis
    using assms by (simp add: cell_def buildPlayfairMatrix_flat flat_matrix_length)
qed

lemma cell_inj:
  assumes "row < 5" "col < 5" "row' < 5" "col' < 5" "cell key row col = cell key row' col'"
  shows "row = row' \<and> col = col'"
proof -
  have "row * 5 + col < 25" "row' * 5 + col' < 25" using assms by simp_all
  then have "row * 5 + col = row' * 5 + col'"
    using assms flat_matrix_distinct[of key]
    by (simp add: cell_flat nth_eq_iff_index_eq flat_matrix_length)
  then show ?thesis using assms(2,4) by presburger
qed

lemma cell_surj:
  assumes "ch \<in> set alphabet25"
  obtains row col where "row < 5" "col < 5" "cell key row col = ch"
proof -
  from assms obtain k where k: "k < 25" "flat_matrix key ! k = ch"
    by (metis flat_matrix_set flat_matrix_length in_set_conv_nth)
  have "k div 5 < 5" "k mod 5 < 5" using k(1) by simp_all
  moreover have "cell key (k div 5) (k mod 5) = ch"
    using k \<open>k div 5 < 5\<close> by (simp add: cell_flat)
  ultimately show ?thesis by (rule that)
qed

lemma cell_in_alphabet: "row < 5 \<Longrightarrow> col < 5 \<Longrightarrow> cell key row col \<in> set alphabet25"
proof -
  assume a: "row < 5" "col < 5"
  then have "row * 5 + col < 25" by simp
  then have "flat_matrix key ! (row * 5 + col) \<in> set (flat_matrix key)"
    by (simp add: flat_matrix_length)
  then show ?thesis using a by (simp add: cell_flat flat_matrix_set)
qed

lemma findPosition_cell:
  assumes "row < 5" "col < 5"
  shows "findPosition (buildPlayfairMatrix key) (Some (cell key row col)) = Some (row, col)"
proof -
  let ?P = "\<lambda>(r, c). Some (buildPlayfairMatrix key ! r ! c) = Some (cell key row col)"
  let ?xs = "List.product [0..<5] [0..<5]"
  have s: "set ?xs = {0..<5} \<times> {0..<5}" by (simp only: set_product set_upt)
  have m: "(row, col) \<in> set ?xs" unfolding s using assms by simp
  have "?P (row, col)" by (simp add: cell_def)
  with m obtain p where p: "List.find ?P ?xs = Some p"
    using find_exists[of "(row, col)" ?xs ?P] by blast
  note q = find_SomeD[OF p]
  from q have "p \<in> set ?xs" by (rule conjunct2)
  then have b: "fst p < 5" "snd p < 5" unfolding s by auto
  have "cell key (fst p) (snd p) = cell key row col"
    using conjunct1[OF q] by (simp add: cell_def case_prod_beta)
  then have "p = (row, col)"
    using cell_inj[OF b assms] by (simp add: prod_eq_iff)
  with p show ?thesis by (simp only: findPosition_def)
qed

section \<open>Playfair cipher: digrams\<close>

lemma mod_js_5: "mod_js (Fin n) (Fin 5) = Fin (n mod 5)"
proof -
  let ?r = "if 0 \<le> n then n mod 5 else - ((- n) mod 5)"
  have r: "js_rem (Fin n) (Fin 5) = Fin ?r" by (auto simp: sgn_if)
  have b: "- 5 < ?r" "?r < 5" by auto
  have c: "?r mod 5 = n mod 5" by (simp add: mod_minus_eq)
  have "js_add (Fin ?r) (Fin 5) = Fin (?r + 5)" using b by (intro js_add_fin) linarith
  moreover have "js_rem (Fin (?r + 5)) (Fin 5) = Fin ((?r + 5) mod 5)"
    using b by (intro js_rem_nonneg) linarith+
  ultimately show ?thesis using c by (simp only: mod_js_def r) simp
qed

lemma prev5_eq: "n < 5 \<Longrightarrow> prev5 n = (n + 4) mod 5"
proof -
  assume n: "n < 5"
  then have "js_sub (Fin (int n)) (Fin 1) = Fin (int n - 1)" by (intro js_sub_fin) linarith
  then have "prev5 n = nat ((int n - 1) mod 5)" by (simp only: prev5_def mod_js_5 to_index.simps)
  also have "\<dots> = (n + 4) mod 5"
  proof -
    have "n = 0 \<or> n = 1 \<or> n = 2 \<or> n = 3 \<or> n = 4" using n by linarith
    then show ?thesis by (elim disjE) simp_all
  qed
  finally show ?thesis .
qed

lemma prev5_next: "n < 5 \<Longrightarrow> prev5 ((n + 1) mod 5) = n"
proof -
  assume "n < 5"
  then have "n = 0 \<or> n = 1 \<or> n = 2 \<or> n = 3 \<or> n = 4" by linarith
  then show ?thesis by (elim disjE) (simp_all add: prev5_eq)
qed

lemma encrypt_step:
  assumes "r1 < 5" "c1 < 5" "r2 < 5" "c2 < 5"
  shows "encrypt_digrams (buildPlayfairMatrix key) ((cell key r1 c1, cell key r2 c2) # rest) =
    (case encrypt_digrams (buildPlayfairMatrix key) rest of
       Inl e \<Rightarrow> Inl e
     | Inr res \<Rightarrow> Inr ((if r1 = r2 then [cell key r1 ((c1 + 1) mod 5), cell key r2 ((c2 + 1) mod 5)]
                      else if c1 = c2 then [cell key ((r1 + 1) mod 5) c1, cell key ((r2 + 1) mod 5) c2]
                      else [cell key r1 c2, cell key r2 c1]) @ res))"
  by (simp add: findPosition_cell[OF assms(1,2)] findPosition_cell[OF assms(3,4)] Let_def)
     (auto simp: cell_def split: sum.splits)

lemma decrypt_step:
  assumes "r1 < 5" "c1 < 5" "r2 < 5" "c2 < 5"
  shows "decrypt_from (buildPlayfairMatrix key) (cell key r1 c1 # cell key r2 c2 # rest) =
    (case decrypt_from (buildPlayfairMatrix key) rest of
       Inl e \<Rightarrow> Inl e
     | Inr res \<Rightarrow> Inr ((if r1 = r2 then [cell key r1 (prev5 c1), cell key r2 (prev5 c2)]
                      else if c1 = c2 then [cell key (prev5 r1) c1, cell key (prev5 r2) c2]
                      else [cell key r1 c2, cell key r2 c1]) @ res))"
  by (simp add: findPosition_cell[OF assms(1,2)] findPosition_cell[OF assms(3,4)] Let_def)
     (auto simp: cell_def split: sum.splits)

lemma digram_step:
  assumes p: "r1 < 5" "c1 < 5" "r2 < 5" "c2 < 5"
    and E: "encrypt_digrams (buildPlayfairMatrix key) rest = Inr C"
    and D: "decrypt_from (buildPlayfairMatrix key) C = Inr L"
  shows "\<exists>x y. encrypt_digrams (buildPlayfairMatrix key) ((cell key r1 c1, cell key r2 c2) # rest)
                = Inr (x # y # C)
      \<and> decrypt_from (buildPlayfairMatrix key) (x # y # C) = Inr (cell key r1 c1 # cell key r2 c2 # L)
      \<and> x \<in> set alphabet25 \<and> y \<in> set alphabet25"
proof -
  let ?G = "buildPlayfairMatrix key"
  let ?ds = "(cell key r1 c1, cell key r2 c2) # rest"
  have n: "(n + 1) mod 5 < 5" for n :: nat by simp
  have R: "\<exists>x y. encrypt_digrams ?G ?ds = Inr (x # y # C)
      \<and> decrypt_from ?G (x # y # C) = Inr (cell key r1 c1 # cell key r2 c2 # L)
      \<and> x \<in> set alphabet25 \<and> y \<in> set alphabet25"
    if e: "encrypt_digrams ?G ?ds = Inr ([cell key r1' c1', cell key r2' c2'] @ C)"
      and d: "decrypt_from ?G (cell key r1' c1' # cell key r2' c2' # C)
              = Inr ([cell key r1 c1, cell key r2 c2] @ L)"
      and q: "r1' < 5" "c1' < 5" "r2' < 5" "c2' < 5"
    for r1' c1' r2' c2'
  proof -
    have "encrypt_digrams ?G ?ds = Inr (cell key r1' c1' # cell key r2' c2' # C)"
      using e by simp
    moreover have "decrypt_from ?G (cell key r1' c1' # cell key r2' c2' # C)
         = Inr (cell key r1 c1 # cell key r2 c2 # L)"
      using d by simp
    moreover have "cell key r1' c1' \<in> set alphabet25" "cell key r2' c2' \<in> set alphabet25"
      using q by (simp_all only: cell_in_alphabet)
    ultimately show ?thesis by blast
  qed
  consider (row) "r1 = r2" | (col) "r1 \<noteq> r2" "c1 = c2" | (rect) "r1 \<noteq> r2" "c1 \<noteq> c2" by blast
  then show ?thesis
  proof cases
    case row
    have e: "encrypt_digrams ?G ?ds
        = Inr ([cell key r1 ((c1 + 1) mod 5), cell key r2 ((c2 + 1) mod 5)] @ C)"
      unfolding encrypt_step[OF p] E sum.case using row by simp
    have "decrypt_from ?G (cell key r1 ((c1 + 1) mod 5) # cell key r2 ((c2 + 1) mod 5) # C)
        = Inr ([cell key r1 (prev5 ((c1 + 1) mod 5)), cell key r2 (prev5 ((c2 + 1) mod 5))] @ L)"
      unfolding decrypt_step[OF p(1) n p(3) n] D sum.case using row by simp
    then have d: "decrypt_from ?G (cell key r1 ((c1 + 1) mod 5) # cell key r2 ((c2 + 1) mod 5) # C)
        = Inr ([cell key r1 c1, cell key r2 c2] @ L)"
      by (simp only: prev5_next[OF p(2)] prev5_next[OF p(4)])
    show ?thesis using e d p(1) n p(3) n by (rule R)
  next
    case col
    have x: "(r1 + 1) mod 5 \<noteq> (r2 + 1) mod 5"
    proof
      assume "(r1 + 1) mod 5 = (r2 + 1) mod 5"
      then have "prev5 ((r1 + 1) mod 5) = prev5 ((r2 + 1) mod 5)" by (rule arg_cong)
      then have "r1 = r2" by (simp only: prev5_next[OF p(1)] prev5_next[OF p(3)])
      with col(1) show False by contradiction
    qed
    have e: "encrypt_digrams ?G ?ds
        = Inr ([cell key ((r1 + 1) mod 5) c1, cell key ((r2 + 1) mod 5) c2] @ C)"
      unfolding encrypt_step[OF p] E sum.case using col by simp
    have "decrypt_from ?G (cell key ((r1 + 1) mod 5) c1 # cell key ((r2 + 1) mod 5) c2 # C)
        = Inr ([cell key (prev5 ((r1 + 1) mod 5)) c1, cell key (prev5 ((r2 + 1) mod 5)) c2] @ L)"
      unfolding decrypt_step[OF n p(2) n p(4)] D sum.case using x col by simp
    then have d: "decrypt_from ?G (cell key ((r1 + 1) mod 5) c1 # cell key ((r2 + 1) mod 5) c2 # C)
        = Inr ([cell key r1 c1, cell key r2 c2] @ L)"
      by (simp only: prev5_next[OF p(1)] prev5_next[OF p(3)])
    show ?thesis using e d n p(2) n p(4) by (rule R)
  next
    case rect
    have y: "c2 \<noteq> c1" using rect(2) by simp
    have e: "encrypt_digrams ?G ?ds = Inr ([cell key r1 c2, cell key r2 c1] @ C)"
      unfolding encrypt_step[OF p] E sum.case using rect by simp
    have d: "decrypt_from ?G (cell key r1 c2 # cell key r2 c1 # C)
        = Inr ([cell key r1 c1, cell key r2 c2] @ L)"
      unfolding decrypt_step[OF p(1) p(4) p(3) p(2)] D sum.case using rect y by simp
    show ?thesis using e d p(1) p(4) p(3) p(2) by (rule R)
  qed
qed

section \<open>Playfair cipher: round trip\<close>

lemma digrams_roundtrip:
  assumes "list_all (\<lambda>(a, b). a \<in> set alphabet25 \<and> b \<in> set alphabet25) ds"
  shows "\<exists>C. encrypt_digrams (buildPlayfairMatrix key) ds = Inr C
           \<and> decrypt_from (buildPlayfairMatrix key) C = Inr (letters_of ds)
           \<and> set C \<subseteq> set alphabet25"
  using assms
proof (induction ds)
  case Nil
  show ?case by (simp add: letters_of_def)
next
  case (Cons d ds)
  obtain a b where d: "d = (a, b)" by (cases d)
  from Cons(2) have ab: "a \<in> set alphabet25" "b \<in> set alphabet25"
    and ds: "list_all (\<lambda>(a, b). a \<in> set alphabet25 \<and> b \<in> set alphabet25) ds"
    by (simp_all add: d)
  from Cons(1)[OF ds] obtain C where C:
    "encrypt_digrams (buildPlayfairMatrix key) ds = Inr C"
    "decrypt_from (buildPlayfairMatrix key) C = Inr (letters_of ds)"
    "set C \<subseteq> set alphabet25"
    by blast
  obtain r1 c1 where p1: "r1 < 5" "c1 < 5" "cell key r1 c1 = a"
    using ab(1) by (rule cell_surj)
  obtain r2 c2 where p2: "r2 < 5" "c2 < 5" "cell key r2 c2 = b"
    using ab(2) by (rule cell_surj)
  from digram_step[OF p1(1,2) p2(1,2) C(1,2)] obtain x y where xy:
    "encrypt_digrams (buildPlayfairMatrix key) ((a, b) # ds) = Inr (x # y # C)"
    "decrypt_from (buildPlayfairMatrix key) (x # y # C) = Inr (a # b # letters_of ds)"
    "x \<in> set alphabet25" "y \<in> set alphabet25"
    unfolding p1(3) p2(3) by blast
  have "letters_of (d # ds) = a # b # letters_of ds" by (simp add: letters_of_def d)
  then show ?case using xy C(3) unfolding d by (intro exI[of _ "x # y # C"]) simp
qed

lemma X_in_alphabet: "CHR ''X'' \<in> set alphabet25"
  by (simp add: alphabet25_def)

lemma digrams_from_letters:
  "set t \<subseteq> A \<Longrightarrow> CHR ''X'' \<in> A \<Longrightarrow> list_all (\<lambda>(a, b). a \<in> A \<and> b \<in> A) (digrams_from t)"
  by (induction t rule: digrams_from.induct) simp_all

lemma letters_of_digrams_from:
  "even (length t) \<Longrightarrow> distinct_adj t \<Longrightarrow> letters_of (digrams_from t) = t"
  by (induction t rule: digrams_from.induct) (auto simp: letters_of_def dest: distinct_adj_ConsD)

lemma alphabet25_all_upper: "set C \<subseteq> set alphabet25 \<Longrightarrow> all_upper C"
  by (auto simp: all_upper_def list_all_iff alphabet25_set)

lemma playfair_roundtrip_digrams:
  "playfair_roundtrip T K = Inr (letters_of (preparePlayfairText T))"
proof -
  have "set (playfair_canonical T) \<subseteq> set alphabet25" using canonical_set by blast
  then have "list_all (\<lambda>(a, b). a \<in> set alphabet25 \<and> b \<in> set alphabet25) (preparePlayfairText T)"
    unfolding preparePlayfairText_def playfair_canonical_def[symmetric]
    using X_in_alphabet by (rule digrams_from_letters)
  from digrams_roundtrip[OF this, of K] obtain C where C:
    "encrypt_digrams (buildPlayfairMatrix K) (preparePlayfairText T) = Inr C"
    "decrypt_from (buildPlayfairMatrix K) C = Inr (letters_of (preparePlayfairText T))"
    "set C \<subseteq> set alphabet25"
    by blast
  have "playfairEncrypt T K = Inr C" by (simp add: playfairEncrypt_def C(1))
  moreover have "playfairDecrypt C K = Inr (letters_of (preparePlayfairText T))"
    by (simp add: playfairDecrypt_def canonical_text[OF alphabet25_all_upper[OF C(3)]] C(2))
  ultimately show ?thesis by (simp add: playfair_roundtrip_def)
qed

text \<open>
  Claim C4, as amended. For every key \<open>K\<close> and every text \<open>T\<close> (of code units below 256)
  whose canonical form (what \<^verbatim>\<open>toUpperCase\<close> gives, \<open>J\<close> replaced by \<open>I\<close>, letters \<open>A\<close> to
  \<open>Z\<close> only) has even length and no two adjacent equal letters,
  \<^verbatim>\<open>playfairDecrypt(playfairEncrypt(T, K), K)\<close> returns the canonical form of \<open>T\<close>.
\<close>

theorem playfair_roundtrip_canonical:
  assumes "even (length (playfair_canonical T))" "distinct_adj (playfair_canonical T)"
  shows "playfair_roundtrip T K = Inr (playfair_canonical T)"
  using letters_of_digrams_from[OF assms]
  by (simp add: playfair_roundtrip_digrams preparePlayfairText_def playfair_canonical_def)

theorem playfair_roundtrip_canonical_witness:
  "(even (length (playfair_canonical ''Hide Gold'')) \<and> distinct_adj (playfair_canonical ''Hide Gold''))
   \<and> playfair_roundtrip ''Hide Gold'' ''playfair example'' = Inr (playfair_canonical ''Hide Gold'')"
proof -
  have h: "even (length (playfair_canonical ''Hide Gold''))"
    "distinct_adj (playfair_canonical ''Hide Gold'')"
    by code_simp+
  from h playfair_roundtrip_canonical [OF h] show ?thesis by blast
qed

text \<open>
  Claim C4 as stated fails on \<^verbatim>\<open>"IJ"\<close>, an alphabetic text of even length with no adjacent
  repeated letter: the merge of \<open>J\<close> into \<open>I\<close> makes it \<^verbatim>\<open>"II"\<close>, the repeated letter is split
  by the filler and the round trip returns \<^verbatim>\<open>"IXIX"\<close>.
\<close>

theorem playfair_roundtrip_counterexample:
  "is_upper CHR ''I'' \<and> is_upper CHR ''J'' \<and> distinct_adj ''IJ'' \<and> even (length ''IJ'')
   \<and> playfair_roundtrip ''IJ'' ''KEY'' = Inr ''IXIX''"
  by code_simp

text \<open>The canonical form follows \<^verbatim>\<open>toUpperCase\<close> on every code unit: a sharp s (code 223)
  becomes \<open>SS\<close>, so the canonical form of the sharp s followed by \<open>AB\<close> is \<open>SSAB\<close>, where the
  repeated \<open>S\<close> is split by the filler and the round trip returns \<open>SXSABX\<close>.\<close>

lemma playfair_sharp_s:
  "playfair_canonical (char_of (223::nat) # ''AB'') = ''SSAB''
   \<and> playfair_roundtrip (char_of (223::nat) # ''AB'') ''KEY'' = Inr ''SXSABX''"
  by code_simp

lemma playfairEncrypt_total: "\<exists>C. playfairEncrypt T K = Inr C"
  using playfair_roundtrip_digrams[of T K]
  by (cases "playfairEncrypt T K") (simp_all add: playfair_roundtrip_def)

text \<open>
  Claim C8 fails on the code: \<^verbatim>\<open>playfairEncrypt\<close> returns a text on every input, but
  \<^verbatim>\<open>playfairDecrypt\<close> does not replace \<open>J\<close> and does not pad, so on a text that contains \<open>J\<close>
  or has an odd number of letters \<^verbatim>\<open>findPosition\<close> returns \<^verbatim>\<open>null\<close> and the destructuring
  raises a \<open>TypeError\<close>.
\<close>

theorem playfairDecrypt_type_error:
  "(\<exists>C. playfairEncrypt T K = Inr C)
   \<and> playfairDecrypt ''JA'' ''KEY'' = Inl TypeError
   \<and> playfairDecrypt ''A'' ''KEY'' = Inl TypeError"
proof -
  have "playfairDecrypt ''JA'' ''KEY'' = Inl TypeError" by code_simp
  moreover have "playfairDecrypt ''A'' ''KEY'' = Inl TypeError" by code_simp
  ultimately show ?thesis using playfairEncrypt_total by blast
qed

section \<open>Exhaustive key search\<close>

lemma modInverse_validA:
  assumes "a \<in> set validA"
  obtains aInv where "modInverse (Fin a) 26 = Some (Fin aInv)" "1 \<le> aInv" "aInv \<le> 25"
    "(a * aInv) mod 26 = 1"
proof -
  from assms have "0 \<le> a" "a < 26" by (auto simp: validA_def)
  with assms have "gcd a 26 = 1" by (simp add: validA_iff)
  then show ?thesis using that by (rule modInverse_coprime)
qed

lemma affineDecrypt_validA:
  "a \<in> set validA \<Longrightarrow> \<exists>t. affineDecrypt c (Fin a) b = Inr t"
  by (erule modInverse_validA) (simp add: affineDecrypt_def)

lemma bruteForceAffine_eq:
  "bruteForceAffine c
   = map (\<lambda>(a, b). (a, b, projr (affineDecrypt c (Fin a) (Fin b)))) (List.product validA [0..25])"
proof -
  have inner: "concat (map (\<lambda>b. case affineDecrypt c (Fin a) (Fin b) of
           Inr decrypted \<Rightarrow> [(a, b, decrypted)] | Inl e \<Rightarrow> []) bs)
        = map (\<lambda>b. (a, b, projr (affineDecrypt c (Fin a) (Fin b)))) bs"
    if "a \<in> set validA" for a bs
  proof (induction bs)
    case (Cons b bs)
    then show ?case using affineDecrypt_validA[OF that, of c "Fin b"] by auto
  qed simp
  have "concat (map (\<lambda>a. concat (map (\<lambda>b. case affineDecrypt c (Fin a) (Fin b) of
           Inr decrypted \<Rightarrow> [(a, b, decrypted)] | Inl e \<Rightarrow> []) [0..25])) as)
       = map (\<lambda>(a, b). (a, b, projr (affineDecrypt c (Fin a) (Fin b)))) (List.product as [0..25])"
    if "set as \<subseteq> set validA" for as
    using that by (induction as) (simp_all add: inner comp_def del: upto.simps)
  then show ?thesis by (simp add: bruteForceAffine_def)
qed

lemma bruteForceAffine_keys:
  "map (\<lambda>(a, b, t). (a, b)) (bruteForceAffine c) = List.product validA [0..25]"
  unfolding bruteForceAffine_eq by (simp add: comp_def case_prod_beta)

lemma bruteForceAffine_texts:
  "map (\<lambda>(a, b, t). Inr t) (bruteForceAffine c)
   = map (\<lambda>(a, b). affineDecrypt c (Fin a) (Fin b)) (List.product validA [0..25])"
proof -
  have "Inr (projr (affineDecrypt c (Fin a) (Fin b))) = affineDecrypt c (Fin a) (Fin b)"
    if "(a, b) \<in> set (List.product validA [0..25])" for a b
  proof -
    from that have "a \<in> set validA" by simp
    from affineDecrypt_validA[OF this, of c "Fin b"] show ?thesis by auto
  qed
  then show ?thesis
    unfolding bruteForceAffine_eq by (auto simp: comp_def case_prod_beta simp del: set_product)
qed

lemma bruteForceAffine_member:
  assumes "a \<in> set validA" "b \<in> set [0..25]" "affineDecrypt c (Fin a) (Fin b) = Inr t"
  shows "(a, b, t) \<in> set (bruteForceAffine c)"
  using assms unfolding bruteForceAffine_def by (fastforce simp del: set_upto)

lemma bruteForceCaesar_member:
  assumes "s \<in> set [0..25]"
  shows "(s, caesarDecrypt c (Fin s)) \<in> set (bruteForceCaesar c)"
  using assms unfolding bruteForceCaesar_def by (simp del: set_upto)

lemma sorted_product:
  assumes "sorted_wrt (<) bs"
  shows "sorted_wrt (<) as \<Longrightarrow> sorted_wrt key_less (List.product as bs)"
proof (induction as)
  case (Cons a as)
  have "sorted_wrt key_less (map (Pair a) bs)"
    using assms by (simp add: sorted_wrt_map key_less_def)
  moreover have "sorted_wrt key_less (List.product as bs)" using Cons by simp
  moreover have "key_less x y" if "x \<in> set (map (Pair a) bs)" "y \<in> set (List.product as bs)" for x y
    using that Cons(2) by (auto simp: key_less_def)
  ultimately show ?case by (simp add: sorted_wrt_append)
qed simp

lemma upto_strict_sorted: "sorted_wrt (<) [i..j]"
  by (simp add: strict_sorted_iff)

lemma validA_sorted: "sorted_wrt (<) validA"
  by (simp add: validA_def)

text \<open>Encrypting a candidate with its key gives the ciphertext back.\<close>

lemma caesar_reencrypt:
  assumes "\<bar>s\<bar> \<le> 9007199254740967"
  shows "caesarEncrypt (caesarDecrypt c (Fin s)) (Fin s) = c"
proof -
  have n: "\<bar>- s\<bar> \<le> 9007199254740967" using assms by simp
  have "letter_map (\<lambda>x. x + s) (letter_map (\<lambda>x. x + - s) ch) = ch" for ch
    by (rule letter_map_inv) (simp add: mod_add_left_eq)
  then show ?thesis
    by (simp add: caesarDecrypt_def caesarEncrypt_letter_map[OF assms]
        caesarEncrypt_letter_map[OF n] map_idI)
qed

lemma affine_reencrypt_arith:
  assumes "(a * aInv) mod 26 = (1::int)" "0 \<le> x" "x < 26"
  shows "(a * ((aInv * (x - b)) mod 26) + b) mod 26 = x"
proof -
  have "(a * ((aInv * (x - b)) mod 26) + b) mod 26 = (a * (aInv * (x - b)) + b) mod 26"
    by (metis mod_add_left_eq mod_mult_right_eq)
  also have "\<dots> = ((a * aInv) * (x - b) + b) mod 26" by (simp add: mult.assoc)
  also have "\<dots> = ((a * aInv) mod 26 * (x - b) + b) mod 26"
    by (metis mod_add_left_eq mod_mult_left_eq)
  also have "\<dots> = x" using assms by simp
  finally show ?thesis .
qed

lemma affine_reencrypt:
  assumes "a \<in> set validA" "b \<in> set [0..25]"
  shows "affineEncrypt (projr (affineDecrypt c (Fin a) (Fin b))) (Fin a) (Fin b) = Some (Inr c)"
proof -
  obtain aInv where i: "modInverse (Fin a) 26 = Some (Fin aInv)" "1 \<le> aInv" "aInv \<le> 25"
    "(a * aInv) mod 26 = 1"
    using assms(1) by (rule modInverse_validA)
  have a: "0 < a" "a \<le> 281474976710656" using assms(1) by (auto simp: validA_def)
  have g: "gcd a 26 = 1" using assms(1) a validA_iff[of a] by (auto simp: validA_def)
  have b: "\<bar>b\<bar> \<le> 281474976710656" using assms(2) by simp
  have "letter_map (\<lambda>x. a * x + b) (letter_map (\<lambda>y. aInv * (y - b)) ch) = ch" for ch
    by (rule letter_map_inv) (rule affine_reencrypt_arith[OF i(4)])
  then show ?thesis
    by (simp add: affineDecrypt_letter_map[OF i(1,2,3) b] affineEncrypt_letter_map[OF a b g]
        map_idI)
qed

lemma map_const_replicate: "(\<And>x. x \<in> set xs \<Longrightarrow> f x = v) \<Longrightarrow> map f xs = replicate (length xs) v"
  by (induction xs) simp_all

lemma bruteForceCaesar_reencrypt:
  "map (\<lambda>(s, t). caesarEncrypt t (Fin s)) (bruteForceCaesar c) = replicate 26 c"
proof -
  have "map (\<lambda>s. caesarEncrypt (caesarDecrypt c (Fin s)) (Fin s)) [0..25]
        = replicate (length [0..25::int]) c"
    by (rule map_const_replicate) (simp add: caesar_reencrypt)
  then show ?thesis by (simp add: bruteForceCaesar_def comp_def)
qed

lemma bruteForceAffine_reencrypt:
  "map (\<lambda>(a, b, t). affineEncrypt t (Fin a) (Fin b)) (bruteForceAffine c)
   = replicate 312 (Some (Inr c))"
proof -
  let ?ks = "List.product validA [0..25]"
  have "map (\<lambda>(a, b). affineEncrypt (projr (affineDecrypt c (Fin a) (Fin b))) (Fin a) (Fin b)) ?ks
        = replicate (length ?ks) (Some (Inr c))"
    by (rule map_const_replicate) (auto simp: affine_reencrypt simp del: upto.simps)
  moreover have "length ?ks = 312" by (simp add: validA_def)
  ultimately show ?thesis
    unfolding bruteForceAffine_eq by (simp add: comp_def split_def)
qed

text \<open>
  Claim C7. The exhaustive searches enumerate their whole key space in ascending key order:
  for every ciphertext \<open>c\<close>, \<^verbatim>\<open>bruteForceCaesar\<close> returns 26 entries whose shifts are
  0, 1, ..., 25 in this order, and \<^verbatim>\<open>bruteForceAffine\<close> returns 312 entries whose keys
  \<open>(a, b)\<close> are the twelve valid \<open>a\<close> in ascending order, each with \<open>b\<close> = 0, 1, ..., 25 in this
  order. The candidate of every entry is the decryption of \<open>c\<close> under the key of the entry,
  and encrypting it with this key gives \<open>c\<close> back. \<^verbatim>\<open>bruteForceCaesar("KHOOR")\<close> contains the
  shift 3 with \<^verbatim>\<open>"HELLO"\<close> and \<^verbatim>\<open>bruteForceAffine("RCLLA")\<close> contains the key (5, 8) with
  \<^verbatim>\<open>"HELLO"\<close>.
\<close>

theorem brute_force_enumeration:
  "map fst (bruteForceCaesar c) = [0..25]
   \<and> length (bruteForceCaesar c) = 26
   \<and> sorted_wrt (<) (map fst (bruteForceCaesar c))
   \<and> map snd (bruteForceCaesar c) = map (\<lambda>s. caesarDecrypt c (Fin s)) [0..25]
   \<and> map (\<lambda>(s, t). caesarEncrypt t (Fin s)) (bruteForceCaesar c) = replicate 26 c
   \<and> map (\<lambda>(a, b, t). (a, b)) (bruteForceAffine c) = List.product validA [0..25]
   \<and> length (bruteForceAffine c) = 312
   \<and> sorted_wrt key_less (map (\<lambda>(a, b, t). (a, b)) (bruteForceAffine c))
   \<and> map (\<lambda>(a, b, t). Inr t) (bruteForceAffine c)
       = map (\<lambda>(a, b). affineDecrypt c (Fin a) (Fin b)) (List.product validA [0..25])
   \<and> map (\<lambda>(a, b, t). affineEncrypt t (Fin a) (Fin b)) (bruteForceAffine c)
       = replicate 312 (Some (Inr c))
   \<and> (3, ''HELLO'') \<in> set (bruteForceCaesar ''KHOOR'')
   \<and> (5, 8, ''HELLO'') \<in> set (bruteForceAffine ''RCLLA'')"
proof -
  have 1: "map fst (bruteForceCaesar c) = [0..25]"
    by (simp add: bruteForceCaesar_def comp_def)
  have 2: "length (bruteForceCaesar c) = 26" by (simp add: bruteForceCaesar_def)
  have 3: "sorted_wrt (<) (map fst (bruteForceCaesar c))"
    unfolding 1 by (rule upto_strict_sorted)
  have 4: "map snd (bruteForceCaesar c) = map (\<lambda>s. caesarDecrypt c (Fin s)) [0..25]"
    by (simp add: bruteForceCaesar_def comp_def)
  have "length (map (\<lambda>(a, b, t). (a, b)) (bruteForceAffine c)) = 312"
    unfolding bruteForceAffine_keys by (simp add: validA_def)
  then have 5: "length (bruteForceAffine c) = 312" by simp
  have 6: "sorted_wrt key_less (map (\<lambda>(a, b, t). (a, b)) (bruteForceAffine c))"
    unfolding bruteForceAffine_keys by (rule sorted_product[OF upto_strict_sorted validA_sorted])
  have d: "caesarDecrypt ''KHOOR'' (Fin 3) = ''HELLO''" by code_simp
  have "(3, caesarDecrypt ''KHOOR'' (Fin 3)) \<in> set (bruteForceCaesar ''KHOOR'')"
    by (rule bruteForceCaesar_member) simp
  then have 7: "(3, ''HELLO'') \<in> set (bruteForceCaesar ''KHOOR'')" by (simp only: d)
  have e: "affineDecrypt ''RCLLA'' (Fin 5) (Fin 8) = Inr ''HELLO''" by code_simp
  have 8: "(5, 8, ''HELLO'') \<in> set (bruteForceAffine ''RCLLA'')"
    by (rule bruteForceAffine_member[OF _ _ e]) (simp_all add: validA_def)
  show ?thesis
    using 1 2 3 4 bruteForceCaesar_reencrypt bruteForceAffine_keys 5 6 bruteForceAffine_texts
      bruteForceAffine_reencrypt 7 8
    by (intro conjI)
qed

section \<open>Dictionary search\<close>







section \<open>Non-alphabetic symbols\<close>

lemma pad_X_length: "length (pad_X t) mod 3 = 0"
proof (induction t rule: pad_X.induct)
  case (1 t)
  show ?case
  proof (cases "length t mod 3 = 0")
    case True
    then show ?thesis by (simp add: pad_X.simps[of t])
  next
    case False
    then show ?thesis using 1 by (simp add: pad_X.simps[of t])
  qed
qed

lemma pad_X_upper: "all_upper t \<Longrightarrow> all_upper (pad_X t)"
proof (induction t rule: pad_X.induct)
  case (1 t)
  show ?case
  proof (cases "length t mod 3 = 0")
    case True
    then show ?thesis using 1(2) by (simp add: pad_X.simps[of t])
  next
    case False
    have "is_upper CHR ''X''" by (simp add: is_upper_code code_def)
    then have "all_upper (t @ ''X'')" using 1(2) by (simp add: all_upper_def)
    then show ?thesis using 1(1)[OF False] False by (simp add: pad_X.simps[of t])
  qed
qed

lemma strip_non_AZ_upper: "all_upper (strip_non_AZ us)"
  by (simp add: strip_non_AZ_def all_upper_def list_all_iff char_of_capital(1))

lemma hillEncrypt_upper:
  assumes "small_key M"
  shows "all_upper (hillEncrypt T (mat_of M))"
proof -
  let ?t = "pad_X (strip_non_AZ (toUpperCase T))"
  have u: "all_upper ?t" using strip_non_AZ_upper by (rule pad_X_upper)
  have "hill_loop (mat_of M) ?t = hill_ref M ?t"
    using assms u pad_X_length by (rule hill_loop_ref)
  then show ?thesis by (simp add: hillEncrypt_def hill_ref_upper)
qed

lemma passes_through_map:
  assumes "\<And>ch. \<not> is_lower ch \<Longrightarrow> \<not> is_upper ch \<Longrightarrow> f ch = ch"
  shows "passes_through T (map f T)"
  using assms by (simp add: passes_through_def)

lemma caesarEncrypt_passes_through: "passes_through T (caesarEncrypt T s)"
  unfolding caesarEncrypt_def by (rule passes_through_map) simp

lemma affineEncrypt_passes_through:
  assumes "affineEncrypt T a b = Some (Inr C)"
  shows "passes_through T C"
proof -
  from assms have "C = map (\<lambda>ch.
          if is_lower ch then
            (let x = js_sub (charCodeAt0 ch) (Fin 97);
                 y = mod_js (js_add (js_mul a x) b) (Fin 26)
             in fromCharCode (js_add y (Fin 97)))
          else if is_upper ch then
            (let x = js_sub (charCodeAt0 ch) (Fin 65);
                 y = mod_js (js_add (js_mul a x) b) (Fin 26)
             in fromCharCode (js_add y (Fin 65)))
          else ch) T"
    by (simp add: affineEncrypt_def split: option.splits if_splits)
  then show ?thesis by (simp only:) (rule passes_through_map, simp)
qed

lemma affineDecrypt_passes_through:
  assumes "affineDecrypt T a b = Inr D"
  shows "passes_through T D"
proof -
  from assms obtain aInv where "D = map (\<lambda>ch.
          if is_lower ch then
            (let y = js_sub (charCodeAt0 ch) (Fin 97);
                 x = mod_js (js_mul aInv (js_sub y b)) (Fin 26)
             in fromCharCode (js_add x (Fin 97)))
          else if is_upper ch then
            (let y = js_sub (charCodeAt0 ch) (Fin 65);
                 x = mod_js (js_mul aInv (js_sub y b)) (Fin 26)
             in fromCharCode (js_add x (Fin 65)))
          else ch) T"
    by (auto simp: affineDecrypt_def split: option.splits)
  then show ?thesis by (simp only:) (rule passes_through_map, simp)
qed

lemma playfairEncrypt_upper: "\<exists>C. playfairEncrypt T K = Inr C \<and> all_upper C"
proof -
  have "set (playfair_canonical T) \<subseteq> set alphabet25" using canonical_set by blast
  then have "list_all (\<lambda>(a, b). a \<in> set alphabet25 \<and> b \<in> set alphabet25) (preparePlayfairText T)"
    unfolding preparePlayfairText_def playfair_canonical_def[symmetric]
    using X_in_alphabet by (rule digrams_from_letters)
  from digrams_roundtrip[OF this, of K] obtain C where
    "encrypt_digrams (buildPlayfairMatrix K) (preparePlayfairText T) = Inr C"
    "set C \<subseteq> set alphabet25"
    by blast
  then show ?thesis using alphabet25_all_upper by (auto simp: playfairEncrypt_def)
qed

text \<open>With a shift that is not finite the letters become the character with code 0 and
  the other symbols stay. The same happens to the letters when a product of the affine
  cipher overflows, as \<^verbatim>\<open>9 * (0 - 2^1023)\<close> in \<^verbatim>\<open>affineDecrypt("a", 3, 2^1023)\<close>, and in
  the Hill cipher on a key with infinite entries.\<close>

lemma caesarEncrypt_infinite_shift:
  "caesarEncrypt ''a-B'' PInf = [char_of (0::nat), CHR ''-'', char_of (0::nat)]"
  by code_simp

lemma affineDecrypt_overflow:
  "affineDecrypt ''a'' (Fin 3) (Fin (2 ^ 1023)) = Inr [char_of (0::nat)]"
  by code_simp

lemma hillEncrypt_infinite_key:
  "hillEncrypt ''BBB'' ((PInf, PInf, PInf), (PInf, PInf, PInf), (PInf, PInf, PInf))
   = [char_of (0::nat), char_of (0::nat), char_of (0::nat)]"
  by code_simp

text \<open>
  Claim C1, as amended. The shift cipher and the affine cipher, encoding and decoding, keep
  every non-alphabetic symbol of the input unchanged at its position, for every text and
  every key, finite or not, on which they return a text. The Playfair encoder and, on a key
  with entries of magnitude at most 100000, the Hill encoder remove the non-alphabetic symbols
  instead: their output consists of capital letters only.
\<close>

theorem non_alphabetic_pass_through:
  "passes_through T (caesarEncrypt T s)
   \<and> passes_through T (caesarDecrypt T s)
   \<and> (affineEncrypt T a b = Some (Inr C) \<longrightarrow> passes_through T C)
   \<and> (affineDecrypt T a b = Inr D \<longrightarrow> passes_through T D)
   \<and> (\<exists>P. playfairEncrypt T K = Inr P \<and> all_upper P)
   \<and> (small_key M \<longrightarrow> all_upper (hillEncrypt T (mat_of M)))"
  using caesarEncrypt_passes_through[of T s] caesarEncrypt_passes_through[of T "js_neg s"]
    affineEncrypt_passes_through[of T a b C] affineDecrypt_passes_through[of T a b D]
    playfairEncrypt_upper[of T K] hillEncrypt_upper[of M T]
  unfolding caesarDecrypt_def by blast

theorem non_alphabetic_pass_through_witness:
  "(affineEncrypt ''a-B'' (Fin 5) (Fin 8) = Some (Inr ''i-N'')
    \<and> affineDecrypt ''a-B'' (Fin 5) (Fin 8) = Inr ''o-J''
    \<and> small_key ((1, 0, 0), (0, 1, 0), (0, 0, 1))
    \<and> \<not> (is_lower (''a-B'' ! 1) \<or> is_upper (''a-B'' ! 1)))
   \<and> passes_through ''a-B'' (caesarEncrypt ''a-B'' (Fin 3))
   \<and> caesarEncrypt ''a-B'' (Fin 3) ! 1 = ''a-B'' ! 1
   \<and> passes_through ''a-B'' (caesarDecrypt ''a-B'' (Fin 3))
   \<and> passes_through ''a-B'' ''i-N''
   \<and> passes_through ''a-B'' ''o-J''
   \<and> all_upper (hillEncrypt ''a-B'' (mat_of ((1, 0, 0), (0, 1, 0), (0, 0, 1))))"
proof -
  have h: "affineEncrypt ''a-B'' (Fin 5) (Fin 8) = Some (Inr ''i-N'')"
    "affineDecrypt ''a-B'' (Fin 5) (Fin 8) = Inr ''o-J''"
    "small_key ((1, 0, 0), (0, 1, 0), (0, 0, 1))"
    "\<not> (is_lower (''a-B'' ! 1) \<or> is_upper (''a-B'' ! 1))"
    by code_simp+
  note t = non_alphabetic_pass_through [where T = "''a-B''" and s = "Fin 3" and a = "Fin 5"
      and b = "Fin 8" and C = "''i-N''" and D = "''o-J''"
      and M = "((1, 0, 0), (0, 1, 0), (0, 0, 1))"]
  from t have p: "passes_through ''a-B'' (caesarEncrypt ''a-B'' (Fin 3))" by blast
  have m: "(1::nat) \<in> set [0..<length ''a-B'']" by simp
  from p m h(4) have e: "caesarEncrypt ''a-B'' (Fin 3) ! 1 = ''a-B'' ! 1"
    unfolding passes_through_def by blast
  from h t e show ?thesis by blast
qed

text \<open>
  Claim C1 as stated fails for the Hill and the Playfair cipher: the hyphen of \<^verbatim>\<open>"A-B"\<close> is
  not in the output of either.
\<close>

theorem non_alphabetic_removed_counterexample:
  "\<not> is_lower CHR ''-'' \<and> \<not> is_upper CHR ''-'' \<and> CHR ''-'' \<in> set ''A-B''
   \<and> hillEncrypt ''A-B'' (mat_of ((1, 0, 0), (0, 1, 0), (0, 0, 1))) = ''ABX''
   \<and> playfairEncrypt ''A-B'' ''KEY'' = Inr ''BK''"
  by code_simp

end
